theory Spec2Isabelle
  imports Complex_Main "HOL-Library.Multiset"
begin

section \<open>Arrays and out-of-bounds accesses\<close>

text \<open>
  The engine of \<^verbatim>\<open>src/parallel_algorithms.c\<close> works on C arrays of \<^verbatim>\<open>double\<close>
  addressed through \<^verbatim>\<open>int\<close> indices. An array is modelled as the list of its
  cells. C gives no meaning to a read or a write outside an array, so every function
  below returns an \<open>option\<close>: \<open>None\<close> stands for an execution that touches a cell
  outside its array, \<open>Some\<close> carries the state a well-defined execution ends in.

  Indices, sizes and the depth budget are C \<^verbatim>\<open>int\<close>s, modelled by unbounded
  integers. For an array of \<open>size\<close> cells, \<open>0 \<le> size \<le> INT_MAX\<close>, no operation of
  the code wraps around: every index it computes lies between \<open>-1\<close> and \<open>size\<close>,
  \<open>right - left\<close> lies between \<open>-1\<close> and \<open>size - 1\<close>, the depth is decremented
  only while it is positive, and \<open>mid = left + (right - left) / 2\<close> is computed only
  for \<open>left < right\<close>, where C's truncating division and \<open>div\<close> agree.
\<close>

definition in_bounds :: "'a list \<Rightarrow> int \<Rightarrow> bool" where
  "in_bounds a i \<longleftrightarrow> 0 \<le> i \<and> i < int (length a)"

text \<open>The cells \<open>a[l], \<dots>, a[r]\<close> of an array, both ends included.\<close>

definition slice :: "'a list \<Rightarrow> int \<Rightarrow> int \<Rightarrow> 'a list" where
  "slice a l r = take (nat (r + 1 - l)) (drop (nat l) a)"

section \<open>The sorter\<close>

text \<open>
  The sorter only compares and copies the stored doubles. A stored double is a value
  of an arbitrary type \<open>'a\<close>. \<open>val x\<close> is what the double \<open>x\<close> denotes: \<open>None\<close> when
  \<open>x\<close> is a NaN, and otherwise \<open>Some\<close> of its number, taken in any linearly ordered
  type \<open>'v\<close> (the reals, or the reals with the two infinities). Two stored doubles may
  denote the same number and still be different cells (\<^verbatim>\<open>-0.0\<close> and \<^verbatim>\<open>0.0\<close>),
  which is what makes the order of ties observable.

  \<open>double_le val x y\<close> is the C comparison \<^verbatim>\<open>x <= y\<close> of two doubles: false as
  soon as one of them is a NaN, and the order of the two numbers otherwise.
\<close>

definition double_le :: "('a \<Rightarrow> 'v::linorder option) \<Rightarrow> 'a \<Rightarrow> 'a \<Rightarrow> bool" where
  "double_le val x y =
     (case val x of
        None \<Rightarrow> False
      | Some a \<Rightarrow> (case val y of None \<Rightarrow> False | Some b \<Rightarrow> a \<le> b))"

subsection \<open>\<^verbatim>\<open>merge\<close>\<close>

text \<open>
  First loop of \<^verbatim>\<open>merge\<close>:
  \<^verbatim>\<open>while (i <= mid && j <= right) {
    if (arr[i] <= arr[j]) temp[k++] = arr[i++]; else temp[k++] = arr[j++]; }\<close>
\<close>

function merge_loop :: "('a \<Rightarrow> 'v::linorder option) \<Rightarrow> 'a list \<Rightarrow> 'a list \<Rightarrow> int \<Rightarrow> int \<Rightarrow> int \<Rightarrow> int \<Rightarrow> int
    \<Rightarrow> ('a list \<times> int \<times> int \<times> int) option" where
  "merge_loop val arr temp mid right i j k =
     (if i \<le> mid \<and> j \<le> right then
        if in_bounds arr i \<and> in_bounds arr j \<and> in_bounds temp k then
          if double_le val (arr ! nat i) (arr ! nat j)
          then merge_loop val arr (temp[nat k := arr ! nat i]) mid right (i + 1) j (k + 1)
          else merge_loop val arr (temp[nat k := arr ! nat j]) mid right i (j + 1) (k + 1)
        else None
      else Some (temp, i, j, k))"
  by pat_completeness auto
termination
  by (relation "measure (\<lambda>(val, arr, temp, mid, right, i, j, k).
        nat (mid + 1 - i) + nat (right + 1 - j))") auto

text \<open>
  Second and third loop of \<^verbatim>\<open>merge\<close>, the same loop on either half:
  \<^verbatim>\<open>while (i <= mid) temp[k++] = arr[i++];\<close> and
  \<^verbatim>\<open>while (j <= right) temp[k++] = arr[j++];\<close>.
  \<open>bound\<close> is \<open>mid\<close> or \<open>right\<close>; the loop returns the buffer and \<open>k\<close>.
\<close>

function copy_rest :: "'a list \<Rightarrow> 'a list \<Rightarrow> int \<Rightarrow> int \<Rightarrow> int \<Rightarrow> ('a list \<times> int) option" where
  "copy_rest arr temp bound i k =
     (if i \<le> bound then
        if in_bounds arr i \<and> in_bounds temp k
        then copy_rest arr (temp[nat k := arr ! nat i]) bound (i + 1) (k + 1)
        else None
      else Some (temp, k))"
  by pat_completeness auto
termination
  by (relation "measure (\<lambda>(arr, temp, bound, i, k). nat (bound + 1 - i))") auto

text \<open>Last loop of \<^verbatim>\<open>merge\<close>: \<^verbatim>\<open>for (i = left; i <= right; i++) arr[i] = temp[i];\<close>\<close>

function copy_back :: "'a list \<Rightarrow> 'a list \<Rightarrow> int \<Rightarrow> int \<Rightarrow> 'a list option" where
  "copy_back arr temp right i =
     (if i \<le> right then
        if in_bounds arr i \<and> in_bounds temp i
        then copy_back (arr[nat i := temp ! nat i]) temp right (i + 1)
        else None
      else Some arr)"
  by pat_completeness auto
termination
  by (relation "measure (\<lambda>(arr, temp, right, i). nat (right + 1 - i))") auto

text \<open>
  \<^verbatim>\<open>merge(arr, temp, left, mid, right)\<close> with \<open>i = left\<close>, \<open>j = mid + 1\<close>,
  \<open>k = left\<close>. It returns both arrays, since both are written.
\<close>

definition merge :: "('a \<Rightarrow> 'v::linorder option) \<Rightarrow> 'a list \<Rightarrow> 'a list \<Rightarrow> int \<Rightarrow> int \<Rightarrow> int
    \<Rightarrow> ('a list \<times> 'a list) option" where
  "merge val arr temp left mid right =
     (case merge_loop val arr temp mid right left (mid + 1) left of
        None \<Rightarrow> None
      | Some (temp1, i, j, k) \<Rightarrow>
         (case copy_rest arr temp1 mid i k of
            None \<Rightarrow> None
          | Some (temp2, k2) \<Rightarrow>
             (case copy_rest arr temp2 right j k2 of
                None \<Rightarrow> None
              | Some (temp3, k3) \<Rightarrow>
                 (case copy_back arr temp3 right left of
                    None \<Rightarrow> None
                  | Some arr' \<Rightarrow> Some (arr', temp3)))))"

subsection \<open>\<^verbatim>\<open>mergesort_serial\<close> and \<^verbatim>\<open>mergesort_parallel\<close>\<close>

function mergesort_serial :: "('a \<Rightarrow> 'v::linorder option) \<Rightarrow> 'a list \<Rightarrow> 'a list \<Rightarrow> int \<Rightarrow> int
    \<Rightarrow> ('a list \<times> 'a list) option" where
  "mergesort_serial val arr temp left right =
     (if left < right then
        (case mergesort_serial val arr temp left (left + (right - left) div 2) of
           None \<Rightarrow> None
         | Some (arr1, temp1) \<Rightarrow>
            (case mergesort_serial val arr1 temp1 (left + (right - left) div 2 + 1) right of
               None \<Rightarrow> None
             | Some (arr2, temp2) \<Rightarrow>
                 merge val arr2 temp2 left (left + (right - left) div 2) right))
      else Some (arr, temp))"
  by pat_completeness auto
termination
  by (relation "measure (\<lambda>(val, arr, temp, left, right). nat (right - left))") auto

text \<open>
  What a call of \<^verbatim>\<open>mergesort_parallel\<close> does with its task \<open>(left, right, depth)\<close> is
  not visible in the arrays. The model records it beside them: \<open>Sequential\<close> when the
  call takes the branch of \<^verbatim>\<open>if (depth <= 0 || (right - left) <= 1000)\<close> and runs
  \<^verbatim>\<open>mergesort_serial\<close>; \<open>Forked\<close>, with the records of the two calls under
  \<^verbatim>\<open>#pragma omp task\<close>, when it takes the branch of \<^verbatim>\<open>if (left < right)\<close>;
  \<open>Idle\<close> when it takes neither and returns. Each record carries the task of its call.
\<close>

datatype task_run =
    Sequential int int int
  | Forked int int int task_run task_run
  | Idle int int int

text \<open>
  The two \<^verbatim>\<open>#pragma omp task\<close> calls work on the disjoint ranges \<open>[left, mid]\<close> and
  \<open>[mid + 1, right]\<close> of both arrays and \<^verbatim>\<open>#pragma omp taskwait\<close> waits for both
  before the merge. The model runs the first task, then the second, then the merge;
  on a range inside both arrays, running the second task first ends in the same state
  (lemma \<open>tasks_commute\<close>).
\<close>

function mergesort_parallel :: "('a \<Rightarrow> 'v::linorder option) \<Rightarrow> 'a list \<Rightarrow> 'a list \<Rightarrow> int \<Rightarrow> int
    \<Rightarrow> int \<Rightarrow> ('a list \<times> 'a list \<times> task_run) option" where
  "mergesort_parallel val arr temp left right depth =
     (if depth \<le> 0 \<or> right - left \<le> 1000 then
        (case mergesort_serial val arr temp left right of
           None \<Rightarrow> None
         | Some (arr', temp') \<Rightarrow> Some (arr', temp', Sequential left right depth))
      else if left < right then
        (case mergesort_parallel val arr temp left (left + (right - left) div 2) (depth - 1) of
           None \<Rightarrow> None
         | Some (arr1, temp1, run1) \<Rightarrow>
            (case mergesort_parallel val arr1 temp1 (left + (right - left) div 2 + 1) right
                    (depth - 1) of
               None \<Rightarrow> None
             | Some (arr2, temp2, run2) \<Rightarrow>
                (case merge val arr2 temp2 left (left + (right - left) div 2) right of
                   None \<Rightarrow> None
                 | Some (arr', temp') \<Rightarrow>
                     Some (arr', temp', Forked left right depth run1 run2))))
      else Some (arr, temp, Idle left right depth))"
  by pat_completeness auto
termination
  by (relation "measure (\<lambda>(val, arr, temp, left, right, depth). nat depth)") auto

subsection \<open>\<^verbatim>\<open>parallel_sort\<close>\<close>

text \<open>
  \<^verbatim>\<open>parallel_sort(arr, size)\<close> depends on two answers of its environment, taken
  as parameters: \<open>allocated\<close> is what \<^verbatim>\<open>malloc(size * sizeof(double))\<close> returned,
  \<open>None\<close> for a null pointer and \<open>Some temp\<close> for a fresh buffer with whatever
  contents it has (of \<open>size\<close> cells when the call succeeds for an array that fits in
  memory); \<open>max_threads\<close> is the value of \<^verbatim>\<open>omp_get_max_threads()\<close>. Of the
  parallel region only the thread that enters \<^verbatim>\<open>single\<close> calls the sorter, and the
  region ends when all tasks have. The function is \<^verbatim>\<open>void\<close>: all a caller has
  afterwards is the array. (\<open>size'\<close> is the parameter \<^verbatim>\<open>size\<close>.)
\<close>

definition parallel_sort :: "('a \<Rightarrow> 'v::linorder option) \<Rightarrow> 'a list option \<Rightarrow> int \<Rightarrow> 'a list \<Rightarrow> int
    \<Rightarrow> 'a list option" where
  "parallel_sort val allocated max_threads arr size' =
     (case allocated of
        None \<Rightarrow> Some arr
      | Some temp \<Rightarrow>
         (case mergesort_parallel val arr temp 0 (size' - 1) max_threads of
            None \<Rightarrow> None
          | Some (arr', temp', run) \<Rightarrow> Some arr'))"


section \<open>Data-parallel loops\<close>

text \<open>
  \<^verbatim>\<open>#pragma omp parallel for\<close> hands the iterations \<open>0, \<dots>, size - 1\<close> of the loop
  \<^verbatim>\<open>for (int i = 0; i < size; i++)\<close> to the threads of the team. How many threads
  there are and which iterations each one gets is the runtime's choice. The iterations
  of the loops below touch disjoint cells or accumulate with a reduction clause, so an
  execution is described by the order in which the iterations take effect: \<open>sched\<close>
  maps the iteration space, in loop order, to that order. The sequential loop is the
  schedule \<open>\<lambda>is. is\<close>.
\<close>

fun run_iterations :: "int list \<Rightarrow> (int \<Rightarrow> 's \<Rightarrow> 's option) \<Rightarrow> 's \<Rightarrow> 's option" where
  "run_iterations [] body s = Some s"
| "run_iterations (i # rest) body s =
     (case body i s of None \<Rightarrow> None | Some s' \<Rightarrow> run_iterations rest body s')"

definition parallel_for :: "(int list \<Rightarrow> int list) \<Rightarrow> int \<Rightarrow> (int \<Rightarrow> 's \<Rightarrow> 's option) \<Rightarrow> 's
    \<Rightarrow> 's option" where
  "parallel_for sched size' body s = run_iterations (sched [0..size' - 1]) body s"

text \<open>A schedule of the runtime executes every iteration of the loop exactly once.\<close>

definition valid_schedule :: "(int list \<Rightarrow> int list) \<Rightarrow> int \<Rightarrow> bool" where
  "valid_schedule sched size' \<longleftrightarrow> mset (sched [0..size' - 1]) = mset [0..size' - 1]"

subsection \<open>\<^verbatim>\<open>parallel_reduce\<close>\<close>

text \<open>
  Arithmetic on doubles is modelled by exact arithmetic on the reals. Each case of the
  \<^verbatim>\<open>switch\<close> is a loop with a \<^verbatim>\<open>reduction\<close> clause: every thread accumulates
  into its own copy, which starts at the identity of the operator, and the copies are
  combined with the original \<^verbatim>\<open>result\<close>; in exact arithmetic that is the loop
  body applied to \<^verbatim>\<open>result\<close> once per iteration, in the order of the schedule.
  The \<^verbatim>\<open>switch\<close> has no \<^verbatim>\<open>default\<close>: for any other \<^verbatim>\<open>op\<close> no loop runs.
\<close>

definition parallel_reduce :: "(int list \<Rightarrow> int list) \<Rightarrow> real list \<Rightarrow> int \<Rightarrow> real \<Rightarrow> int
    \<Rightarrow> real option" where
  "parallel_reduce sched arr size' initial op =
     (if op = 0 then
        parallel_for sched size'
          (\<lambda>i result. if in_bounds arr i then Some (result + arr ! nat i) else None) initial
      else if op = 1 then
        parallel_for sched size'
          (\<lambda>i result. if in_bounds arr i then Some (result * arr ! nat i) else None) initial
      else if op = 2 then
        parallel_for sched size'
          (\<lambda>i result. if in_bounds arr i
             then Some (if arr ! nat i > result then arr ! nat i else result) else None) initial
      else if op = 3 then
        parallel_for sched size'
          (\<lambda>i result. if in_bounds arr i
             then Some (if arr ! nat i < result then arr ! nat i else result) else None) initial
      else Some initial)"

text \<open>
  The reduction operators as the specification names them, with their codes, and the
  value each one combines an accumulator and an element to.
\<close>

datatype reduction_operator = Sum | Product | Maximum | Minimum

fun operator_code :: "reduction_operator \<Rightarrow> int" where
  "operator_code Sum = 0"
| "operator_code Product = 1"
| "operator_code Maximum = 2"
| "operator_code Minimum = 3"

fun combine :: "reduction_operator \<Rightarrow> real \<Rightarrow> real \<Rightarrow> real" where
  "combine Sum a x = a + x"
| "combine Product a x = a * x"
| "combine Maximum a x = max a x"
| "combine Minimum a x = min a x"

subsection \<open>\<^verbatim>\<open>parallel_transform\<close>\<close>

text \<open>
  \<open>inp\<close> and \<open>out\<close> are the arrays \<^verbatim>\<open>in\<close> and \<^verbatim>\<open>out\<close>, two distinct arrays;
  \<open>func\<close> is the function behind the pointer \<^verbatim>\<open>func\<close>, a function of its
  argument alone. The loop body is \<^verbatim>\<open>out[i] = func(in[i])\<close>.
\<close>

definition parallel_transform :: "(int list \<Rightarrow> int list) \<Rightarrow> real list \<Rightarrow> real list \<Rightarrow> int
    \<Rightarrow> (real \<Rightarrow> real) \<Rightarrow> real list option" where
  "parallel_transform sched inp out size' func =
     parallel_for sched size'
       (\<lambda>i out. if in_bounds inp i \<and> in_bounds out i
          then Some (out[nat i := func (inp ! nat i)]) else None) out"

section \<open>Reference functions and auxiliary definitions\<close>

text \<open>
  The task a record was made for, and the arrays of a result without the record.
\<close>

fun task_of :: "task_run \<Rightarrow> int \<times> int \<times> int" where
  "task_of (Sequential left right depth) = (left, right, depth)"
| "task_of (Forked left right depth run1 run2) = (left, right, depth)"
| "task_of (Idle left right depth) = (left, right, depth)"

fun arrays :: "('a list \<times> 'a list \<times> task_run) \<Rightarrow> 'a list \<times> 'a list" where
  "arrays (arr, temp, run) = (arr, temp)"

text \<open>The number of cells of the range \<open>[left, right]\<close>, both ends included.\<close>

definition range_length :: "int \<Rightarrow> int \<Rightarrow> int" where
  "range_length left right = right - left + 1"

text \<open>
  The number of a cell that is not a NaN; a list none of whose cells is a NaN; a list
  in non-decreasing order under the C comparison: every cell is \<^verbatim>\<open><=\<close> itself and
  every cell after it (\<open>xs[i] <= xs[j]\<close> whenever \<open>i \<le> j\<close>, lemma
  \<open>non_decreasing_nth\<close>), so that a list in non-decreasing order holds no NaN.
\<close>

definition num :: "('a \<Rightarrow> 'v option) \<Rightarrow> 'a \<Rightarrow> 'v" where
  "num val x = the (val x)"

definition all_numbers :: "('a \<Rightarrow> 'v option) \<Rightarrow> 'a list \<Rightarrow> bool" where
  "all_numbers val xs \<longleftrightarrow> list_all (\<lambda>x. val x \<noteq> None) xs"

definition non_decreasing :: "('a \<Rightarrow> 'v::linorder option) \<Rightarrow> 'a list \<Rightarrow> bool" where
  "non_decreasing val xs \<longleftrightarrow> list_all (\<lambda>x. double_le val x x) xs \<and> sorted_wrt (double_le val) xs"

text \<open>
  The merge of two lists that takes the head of the first list unless the head of the
  second compares below it, and the merge sort of a list that splits where
  \<^verbatim>\<open>mergesort_serial\<close> does. The array code is compared with them.
\<close>

fun stable_merge :: "('a \<Rightarrow> 'v::linorder option) \<Rightarrow> 'a list \<Rightarrow> 'a list \<Rightarrow> 'a list" where
  "stable_merge val [] ys = ys"
| "stable_merge val xs [] = xs"
| "stable_merge val (x # xs) (y # ys) =
     (if double_le val x y then x # stable_merge val xs (y # ys)
      else y # stable_merge val (x # xs) ys)"

function list_mergesort :: "('a \<Rightarrow> 'v::linorder option) \<Rightarrow> 'a list \<Rightarrow> 'a list" where
  "list_mergesort val xs =
     (if length xs \<le> 1 then xs
      else stable_merge val
             (list_mergesort val (take ((length xs - 1) div 2 + 1) xs))
             (list_mergesort val (drop ((length xs - 1) div 2 + 1) xs)))"
  by pat_completeness auto
termination
  by (relation "measure (\<lambda>(val, xs). length xs)") auto

text \<open>The first three loops of \<^verbatim>\<open>merge\<close> in sequence, from any loop state.\<close>

definition fill_temp :: "('a \<Rightarrow> 'v::linorder option) \<Rightarrow> 'a list \<Rightarrow> 'a list \<Rightarrow> int \<Rightarrow> int \<Rightarrow> int
    \<Rightarrow> int \<Rightarrow> int \<Rightarrow> ('a list \<times> int) option" where
  "fill_temp val arr temp mid right i j k =
     (case merge_loop val arr temp mid right i j k of
        None \<Rightarrow> None
      | Some (temp1, i', j', k') \<Rightarrow>
         (case copy_rest arr temp1 mid i' k' of
            None \<Rightarrow> None
          | Some (temp2, k2) \<Rightarrow> copy_rest arr temp2 right j' k2))"

text \<open>
  The record of the call for a task: it depends on the task alone.
\<close>

function run_of :: "int \<Rightarrow> int \<Rightarrow> int \<Rightarrow> task_run" where
  "run_of left right depth =
     (if depth \<le> 0 \<or> right - left \<le> 1000 then Sequential left right depth
      else if left < right then
        Forked left right depth
          (run_of left (left + (right - left) div 2) (depth - 1))
          (run_of (left + (right - left) div 2 + 1) right (depth - 1))
      else Idle left right depth)"
  by pat_completeness auto
termination
  by (relation "measure (\<lambda>(left, right, depth). nat depth)") auto

section \<open>Properties of the loops and of the reference functions\<close>

declare merge_loop.simps [simp del] copy_rest.simps [simp del] copy_back.simps [simp del]
  mergesort_serial.simps [simp del] mergesort_parallel.simps [simp del]
  list_mergesort.simps [simp del] run_of.simps [simp del]

subsection \<open>The comparison of doubles\<close>

lemma double_le_num:
  "val x \<noteq> None \<Longrightarrow> val y \<noteq> None \<Longrightarrow> double_le val x y \<longleftrightarrow> num val x \<le> num val y"
  by (auto simp: double_le_def num_def)

lemma double_le_refl: "double_le val x x \<longleftrightarrow> val x \<noteq> None"
  by (auto simp: double_le_def split: option.splits)

lemma all_numbers_simps [simp]:
  "all_numbers val []"
  "all_numbers val (x # xs) \<longleftrightarrow> val x \<noteq> None \<and> all_numbers val xs"
  "all_numbers val (xs @ ys) \<longleftrightarrow> all_numbers val xs \<and> all_numbers val ys"
  by (simp_all add: all_numbers_def)

lemma all_numbers_set: "all_numbers val xs \<longleftrightarrow> (\<forall>x\<in>set xs. val x \<noteq> None)"
  by (simp add: all_numbers_def list_all_iff)

lemma all_numbers_mset: "mset xs = mset ys \<Longrightarrow> all_numbers val xs = all_numbers val ys"
proof -
  assume "mset xs = mset ys"
  then have "set xs = set ys" by (rule mset_eq_setD)
  then show ?thesis by (simp add: all_numbers_set)
qed

lemma val_num: "val x \<noteq> None \<Longrightarrow> val x = Some (num val x)"
  by (auto simp: num_def)



lemma non_decreasing_sorted:
  "non_decreasing val xs \<longleftrightarrow> all_numbers val xs \<and> sorted (map (num val) xs)"
proof -
  have "sorted_wrt (double_le val) xs \<longleftrightarrow> sorted_wrt (\<lambda>x y. num val x \<le> num val y) xs"
    if "all_numbers val xs"
    using that by (induction xs) (auto simp: double_le_num all_numbers_set)
  then show ?thesis
    by (auto simp: non_decreasing_def all_numbers_def double_le_refl sorted_map)
qed



lemma non_decreasing_nth:
  "non_decreasing val xs \<longleftrightarrow> (\<forall>i j. i \<le> j \<and> j < length xs \<longrightarrow> double_le val (xs ! i) (xs ! j))"
proof
  assume "non_decreasing val xs"
  then have a: "\<forall>n<length xs. double_le val (xs ! n) (xs ! n)"
    and b: "\<forall>i j. i < j \<longrightarrow> j < length xs \<longrightarrow> double_le val (xs ! i) (xs ! j)"
    by (simp_all add: non_decreasing_def list_all_length sorted_wrt_iff_nth_less)
  show "\<forall>i j. i \<le> j \<and> j < length xs \<longrightarrow> double_le val (xs ! i) (xs ! j)"
  proof (intro allI impI)
    fix i j assume "i \<le> j \<and> j < length xs"
    then show "double_le val (xs ! i) (xs ! j)"
      using a b by (cases "i = j") auto
  qed
next
  assume "\<forall>i j. i \<le> j \<and> j < length xs \<longrightarrow> double_le val (xs ! i) (xs ! j)"
  then show "non_decreasing val xs"
    by (simp add: non_decreasing_def list_all_length sorted_wrt_iff_nth_less)
qed

subsection \<open>The merge and the merge sort of lists\<close>

lemma stable_merge_Nil2 [simp]: "stable_merge val xs [] = xs"
  by (cases xs) simp_all

lemma mset_stable_merge: "mset (stable_merge val xs ys) = mset xs + mset ys"
  by (induction val xs ys rule: stable_merge.induct) simp_all

lemma set_stable_merge: "set (stable_merge val xs ys) = set xs \<union> set ys"
  by (induction val xs ys rule: stable_merge.induct) auto

lemma length_stable_merge: "length (stable_merge val xs ys) = length xs + length ys"
  by (induction val xs ys rule: stable_merge.induct) simp_all

lemma sorted_stable_merge:
  "all_numbers val xs \<Longrightarrow> all_numbers val ys \<Longrightarrow>
   sorted (map (num val) xs) \<Longrightarrow> sorted (map (num val) ys) \<Longrightarrow>
   sorted (map (num val) (stable_merge val xs ys))"
  by (induction val xs ys rule: stable_merge.induct)
    (auto simp: set_stable_merge double_le_num)

lemma filter_stable_merge:
  "all_numbers val xs \<Longrightarrow> all_numbers val ys \<Longrightarrow>
   sorted (map (num val) xs) \<Longrightarrow> sorted (map (num val) ys) \<Longrightarrow>
   filter (\<lambda>x. val x = k) (stable_merge val xs ys)
     = filter (\<lambda>x. val x = k) xs @ filter (\<lambda>x. val x = k) ys"
proof (induction val xs ys rule: stable_merge.induct)
  case (3 val x xs y ys)
  have n: "val x \<noteq> None" "val y \<noteq> None" "all_numbers val xs" "all_numbers val ys"
    using "3.prems" by simp_all
  have s: "sorted (map (num val) xs)" "sorted (map (num val) ys)"
    using "3.prems" by simp_all
  show ?case
  proof (cases "double_le val x y")
    case True
    have "filter (\<lambda>x. val x = k) (stable_merge val xs (y # ys))
        = filter (\<lambda>x. val x = k) xs @ filter (\<lambda>x. val x = k) (y # ys)"
      using True n s "3.prems" by (intro "3.IH"(1)) simp_all
    with True show ?thesis by simp
  next
    case False
    then have lt: "num val y < num val x"
      using n by (simp add: double_le_num)
    have "val z \<noteq> val y" if "z \<in> set (x # xs)" for z
    proof -
      have "num val x \<le> num val z"
        using that "3.prems"(3) by auto
      then have "num val z \<noteq> num val y"
        using lt by simp
      then show ?thesis
        by (auto simp: num_def)
    qed
    then have e: "filter (\<lambda>z. val z = val y) (x # xs) = []"
      unfolding filter_empty_conv by blast
    have IH: "filter (\<lambda>x. val x = k) (stable_merge val (x # xs) ys)
        = filter (\<lambda>x. val x = k) (x # xs) @ filter (\<lambda>x. val x = k) ys"
      using False n s "3.prems" by (intro "3.IH"(2)) simp_all
    show ?thesis
    proof (cases "val y = k")
      case True
      with e have "filter (\<lambda>z. val z = k) (x # xs) = []" by simp
      with False True IH show ?thesis by simp
    next
      case ne: False
      with False IH show ?thesis by simp
    qed
  qed
qed simp_all


lemma filter_val_num:
  "all_numbers val zs \<Longrightarrow> val k \<noteq> None \<Longrightarrow>
   filter (\<lambda>x. val x = val k) zs = filter (\<lambda>x. num val x = num val k) zs"
  by (rule filter_cong) (auto simp: all_numbers_set num_def)

lemma all_numbers_sort_key: "all_numbers val (sort_key f xs) = all_numbers val xs"
  by (simp add: all_numbers_set)

lemma all_numbers_stable_merge:
  "all_numbers val (stable_merge val xs ys) \<longleftrightarrow> all_numbers val xs \<and> all_numbers val ys"
  by (auto simp: all_numbers_set set_stable_merge)

lemma filter_val_sort_key:
  assumes "all_numbers val zs" "val k \<noteq> None"
  shows "filter (\<lambda>x. val x = val k) (sort_key (num val) zs) = filter (\<lambda>x. val x = val k) zs"
proof -
  have "all_numbers val (sort_key (num val) zs)"
    using assms(1) by (simp only: all_numbers_sort_key)
  then have "filter (\<lambda>x. val x = val k) (sort_key (num val) zs)
      = filter (\<lambda>x. num val x = num val k) (sort_key (num val) zs)"
    using assms(2) by (rule filter_val_num)
  also have "\<dots> = filter (\<lambda>x. num val x = num val k) zs"
    by (rule sort_key_stable)
  also have "\<dots> = filter (\<lambda>x. val x = val k) zs"
    using assms by (rule filter_val_num [symmetric])
  finally show ?thesis .
qed

lemma stable_merge_sort_key:
  assumes "all_numbers val xs" "all_numbers val ys"
  shows "stable_merge val (sort_key (num val) xs) (sort_key (num val) ys)
           = sort_key (num val) (xs @ ys)"
proof (rule properties_for_sort_key [symmetric])
  let ?sx = "sort_key (num val) xs" and ?sy = "sort_key (num val) ys"
  let ?m = "stable_merge val ?sx ?sy"
  have n: "all_numbers val ?sx" "all_numbers val ?sy"
    using assms by (simp_all only: all_numbers_sort_key)
  have nm: "all_numbers val ?m" "all_numbers val (xs @ ys)"
    using assms n by (simp_all add: all_numbers_stable_merge)
  show "mset ?m = mset (xs @ ys)"
    by (simp add: mset_stable_merge)
  show "sorted (map (num val) ?m)"
    using n by (simp add: sorted_stable_merge)
  fix k assume "k \<in> set ?m"
  then have k: "val k \<noteq> None"
    using nm(1) by (simp add: all_numbers_set)
  have "filter (\<lambda>x. val x = val k) ?m
      = filter (\<lambda>x. val x = val k) ?sx @ filter (\<lambda>x. val x = val k) ?sy"
    using n by (intro filter_stable_merge) simp_all
  also have "\<dots> = filter (\<lambda>x. val x = val k) xs @ filter (\<lambda>x. val x = val k) ys"
    by (simp only: filter_val_sort_key [OF assms(1) k] filter_val_sort_key [OF assms(2) k])
  finally have "filter (\<lambda>x. val x = val k) ?m = filter (\<lambda>x. val x = val k) (xs @ ys)"
    by simp
  then have "filter (\<lambda>x. num val x = num val k) ?m = filter (\<lambda>x. num val x = num val k) (xs @ ys)"
    by (simp only: filter_val_num [OF nm(1) k] filter_val_num [OF nm(2) k])
  then show "filter (\<lambda>x. num val k = num val x) ?m = filter (\<lambda>x. num val k = num val x) (xs @ ys)"
    by (simp only: eq_commute [of "num val k"])
qed

lemma stable_merge_one_empty: "xs = [] \<or> ys = [] \<Longrightarrow> stable_merge val xs ys = xs @ ys"
  by auto

lemma mset_list_mergesort: "mset (list_mergesort val xs) = mset xs"
proof (induction val xs rule: list_mergesort.induct)
  case (1 val xs)
  show ?case
  proof (cases "length xs \<le> 1")
    case True
    then show ?thesis by (simp add: list_mergesort.simps)
  next
    case False
    let ?h = "(length xs - 1) div 2 + 1"
    have "mset (list_mergesort val xs)
        = mset (list_mergesort val (take ?h xs)) + mset (list_mergesort val (drop ?h xs))"
      using False by (subst list_mergesort.simps) (simp add: mset_stable_merge)
    also have "\<dots> = mset (take ?h xs) + mset (drop ?h xs)"
      using "1.IH" False by simp
    also have "\<dots> = mset (take ?h xs @ drop ?h xs)"
      by (simp only: mset_append)
    finally show ?thesis by (simp only: append_take_drop_id)
  qed
qed

lemma length_list_mergesort: "length (list_mergesort val xs) = length xs"
proof -
  have "size (mset (list_mergesort val xs)) = size (mset xs)"
    by (simp only: mset_list_mergesort)
  then show ?thesis by simp
qed

lemma list_mergesort_short: "length xs \<le> 1 \<Longrightarrow> list_mergesort val xs = xs"
  by (simp add: list_mergesort.simps)

lemma list_mergesort_sort_key:
  "all_numbers val xs \<Longrightarrow> list_mergesort val xs = sort_key (num val) xs"
proof (induction val xs rule: list_mergesort.induct)
  case (1 val xs)
  show ?case
  proof (cases "length xs \<le> 1")
    case True
    then have "sort_key (num val) xs = xs" by (cases xs) simp_all
    with True show ?thesis by (simp add: list_mergesort.simps)
  next
    case False
    let ?h = "(length xs - 1) div 2 + 1"
    have "all_numbers val (take ?h xs @ drop ?h xs)"
      using "1.prems" by (simp only: append_take_drop_id)
    then have n: "all_numbers val (take ?h xs)" "all_numbers val (drop ?h xs)"
      by (simp_all only: all_numbers_simps(3))
    have "list_mergesort val xs
        = stable_merge val (list_mergesort val (take ?h xs)) (list_mergesort val (drop ?h xs))"
      using False by (subst list_mergesort.simps) simp
    also have "\<dots> = stable_merge val (sort_key (num val) (take ?h xs)) (sort_key (num val) (drop ?h xs))"
      using "1.IH" [OF False] n by simp
    also have "\<dots> = sort_key (num val) (take ?h xs @ drop ?h xs)"
      using n by (rule stable_merge_sort_key)
    finally show ?thesis by (simp only: append_take_drop_id)
  qed
qed

subsection \<open>Slices of an array\<close>

lemma slice_Cons: "in_bounds a i \<Longrightarrow> i \<le> r \<Longrightarrow> slice a i r = a ! nat i # slice a (i + 1) r"
  unfolding slice_def in_bounds_def
proof -
  assume a: "0 \<le> i \<and> i < int (length a)" and b: "i \<le> r"
  from a have "nat i < length a" by linarith
  from Cons_nth_drop_Suc [OF this, symmetric]
  have 1: "drop (nat i) a = a ! nat i # drop (nat (i + 1)) a"
    using a by (simp add: nat_add_distrib)
  have 2: "nat (r + 1 - i) = Suc (nat (r + 1 - (i + 1)))" using b by simp
  show "take (nat (r + 1 - i)) (drop (nat i) a) = a ! nat i # take (nat (r + 1 - (i + 1))) (drop (nat (i + 1)) a)"
    by (simp only: 1 2 take_Suc_Cons)
qed

lemma slice_Nil: "r < i \<Longrightarrow> slice a i r = []"
  by (simp add: slice_def)

lemma length_slice:
  "0 \<le> l \<Longrightarrow> r < int (length a) \<Longrightarrow> length (slice a l r) = nat (r + 1 - l)"
  by (auto simp: slice_def)

lemma slice_window:
  "length P = nat l \<Longrightarrow> 0 \<le> l \<Longrightarrow> length X = nat (r + 1 - l) \<Longrightarrow> slice (P @ X @ S) l r = X"
  by (simp add: slice_def)

lemma drop_window:
  "length P = nat l \<Longrightarrow> 0 \<le> l \<Longrightarrow> l \<le> r + 1 \<Longrightarrow> length X = nat (r + 1 - l) \<Longrightarrow>
   drop (nat (r + 1)) (P @ X @ S) = S"
proof -
  assume a: "length P = nat l" "0 \<le> l" "l \<le> r + 1" "length X = nat (r + 1 - l)"
  then have "nat (r + 1) = length (P @ X)" by simp
  then show ?thesis by (metis append_assoc append_eq_conv_conj)
qed

lemma array_split:
  assumes "0 \<le> l" "l \<le> r + 1"
  shows "a = take (nat l) a @ slice a l r @ drop (nat (r + 1)) a"
proof -
  have "nat (r + 1) = nat (r + 1 - l) + nat l"
    using assms by simp
  then have "drop (nat (r + 1)) a = drop (nat (r + 1 - l)) (drop (nat l) a)"
    by (simp only: drop_drop)
  then have "slice a l r @ drop (nat (r + 1)) a = drop (nat l) a"
    unfolding slice_def by (simp only: append_take_drop_id)
  then show ?thesis by simp
qed

lemma slice_append:
  assumes "0 \<le> l" "l \<le> m + 1" "m \<le> r"
  shows "slice a l r = slice a l m @ slice a (m + 1) r"
proof -
  have 1: "nat (r + 1 - l) = nat (m + 1 - l) + nat (r + 1 - (m + 1))"
    using assms by simp
  have 2: "nat (m + 1) = nat (m + 1 - l) + nat l"
    using assms by simp
  show ?thesis
    unfolding slice_def 1 2 by (simp add: take_add)
qed

lemma slice_result:
  assumes "0 \<le> left" "left \<le> right + 1" "right < int (length arr)"
    "length X = nat (right + 1 - left)"
  shows "slice (take (nat left) arr @ X @ drop (nat (right + 1)) arr) left right = X"
    and "take (nat left) (take (nat left) arr @ X @ drop (nat (right + 1)) arr) = take (nat left) arr"
    and "drop (nat (right + 1)) (take (nat left) arr @ X @ drop (nat (right + 1)) arr)
          = drop (nat (right + 1)) arr"
    and "length (take (nat left) arr @ X @ drop (nat (right + 1)) arr) = length arr"
proof -
  have l: "length (take (nat left) arr) = nat left"
    using assms by simp
  show "slice (take (nat left) arr @ X @ drop (nat (right + 1)) arr) left right = X"
    using l assms by (intro slice_window) auto
  show "take (nat left) (take (nat left) arr @ X @ drop (nat (right + 1)) arr) = take (nat left) arr"
    using l by simp
  show "drop (nat (right + 1)) (take (nat left) arr @ X @ drop (nat (right + 1)) arr)
          = drop (nat (right + 1)) arr"
    using l assms by (intro drop_window [of _ left]) auto
  show "length (take (nat left) arr @ X @ drop (nat (right + 1)) arr) = length arr"
    using assms by auto
qed

lemma window_take:
  "k + length A \<le> length t \<Longrightarrow> take (k + length A) (take k t @ A @ drop (k + length A) t) = take k t @ A"
  by simp

lemma window_drop:
  "k + length A \<le> length t \<Longrightarrow>
   drop (k + length A + b) (take k t @ A @ drop (k + length A) t) = drop (k + length A + b) t"
  by (simp add: add.commute add.left_commute)

lemma window_length:
  "k + length A \<le> length t \<Longrightarrow> length (take k t @ A @ drop (k + length A) t) = length t"
  by simp

lemma take_Suc_update: "n < length xs \<Longrightarrow> take (Suc n) (xs[n := v]) = take n xs @ [v]"
  by (simp add: take_Suc_conv_app_nth)

subsection \<open>The loops of \<^verbatim>\<open>merge\<close>\<close>

lemma copy_rest_spec:
  "0 \<le> i \<Longrightarrow> i \<le> bound + 1 \<Longrightarrow> bound < int (length arr) \<Longrightarrow> 0 \<le> k \<Longrightarrow>
   k + (bound + 1 - i) \<le> int (length temp) \<Longrightarrow>
   copy_rest arr temp bound i k =
     Some (take (nat k) temp @ slice arr i bound @ drop (nat (k + (bound + 1 - i))) temp,
           k + (bound + 1 - i))"
proof (induction arr temp bound i k rule: copy_rest.induct)
  case (1 arr temp bound i k)
  show ?case
  proof (cases "i \<le> bound")
    case False
    with 1(3) have "i = bound + 1" by simp
    then show ?thesis by (simp add: copy_rest.simps slice_Nil)
  next
    case True
    let ?t = "temp[nat k := arr ! nat i]"
    have b: "in_bounds arr i" "in_bounds temp k"
      using True 1 by (auto simp: in_bounds_def)
    have e: "k + 1 + (bound + 1 - (i + 1)) = k + (bound + 1 - i)" by simp
    have step: "copy_rest arr temp bound i k = copy_rest arr ?t bound (i + 1) (k + 1)"
      using True b by (subst copy_rest.simps) simp
    have IH: "copy_rest arr ?t bound (i + 1) (k + 1) =
       Some (take (nat (k + 1)) ?t @ slice arr (i + 1) bound @ drop (nat (k + (bound + 1 - i))) ?t,
           k + (bound + 1 - i))"
      using "1.IH" [OF True] b 1(2-) True unfolding e by simp
    have t1: "take (nat (k + 1)) ?t = take (nat k) temp @ [arr ! nat i]"
      using b(2) 1(5) by (simp add: in_bounds_def nat_add_distrib take_Suc_conv_app_nth)
    have "nat k < nat (k + (bound + 1 - i))" using True 1(5) by simp
    then have t2: "drop (nat (k + (bound + 1 - i))) ?t = drop (nat (k + (bound + 1 - i))) temp"
      by (rule drop_update_cancel)
    show ?thesis
      by (simp only: step IH t1 t2 slice_Cons [OF b(1) True] append_assoc append_Cons append_Nil)
  qed
qed

lemma copy_back_spec:
  "0 \<le> i \<Longrightarrow> i \<le> right + 1 \<Longrightarrow> right < int (length arr) \<Longrightarrow> right < int (length temp) \<Longrightarrow>
   copy_back arr temp right i =
     Some (take (nat i) arr @ slice temp i right @ drop (nat (right + 1)) arr)"
proof (induction arr temp right i rule: copy_back.induct)
  case (1 arr temp right i)
  show ?case
  proof (cases "i \<le> right")
    case False
    with 1(3) have "i = right + 1" by simp
    then show ?thesis by (simp add: copy_back.simps slice_Nil)
  next
    case True
    let ?a = "arr[nat i := temp ! nat i]"
    have b: "in_bounds arr i" "in_bounds temp i"
      using True 1 by (auto simp: in_bounds_def)
    have step: "copy_back arr temp right i = copy_back ?a temp right (i + 1)"
      using True b by (subst copy_back.simps) simp
    have IH: "copy_back ?a temp right (i + 1) =
       Some (take (nat (i + 1)) ?a @ slice temp (i + 1) right @ drop (nat (right + 1)) ?a)"
      using "1.IH" [OF True] b 1(2-) True by simp
    have "nat i < length arr" using b(1) unfolding in_bounds_def by linarith
    then have "take (Suc (nat i)) ?a = take (nat i) arr @ [temp ! nat i]"
      by (simp add: take_Suc_conv_app_nth)
    then have t1: "take (nat (i + 1)) ?a = take (nat i) arr @ [temp ! nat i]"
      using 1(2) by (simp add: nat_add_distrib)
    have "nat i < nat (right + 1)" using True 1(2) by simp
    then have t2: "drop (nat (right + 1)) ?a = drop (nat (right + 1)) arr"
      by (rule drop_update_cancel)
    show ?thesis
      by (simp only: step IH t1 t2 slice_Cons [OF b(2) True] append_assoc append_Cons append_Nil)
  qed
qed

lemma fill_temp_exit:
  assumes "\<not> (i \<le> mid \<and> j \<le> right)"
    and "0 \<le> i" "i \<le> mid + 1" "mid < int (length arr)"
    and "0 \<le> j" "j \<le> right + 1" "right < int (length arr)"
    and "0 \<le> k" "k + (mid + 1 - i) + (right + 1 - j) \<le> int (length temp)"
  shows "fill_temp val arr temp mid right i j k =
     Some (take (nat k) temp @ stable_merge val (slice arr i mid) (slice arr j right)
             @ drop (nat (k + (mid + 1 - i) + (right + 1 - j))) temp,
           k + (mid + 1 - i) + (right + 1 - j))"
proof -
  let ?A = "slice arr i mid" and ?B = "slice arr j right"
  let ?k2 = "k + (mid + 1 - i)"
  let ?k3 = "k + (mid + 1 - i) + (right + 1 - j)"
  let ?T = "take (nat k) temp @ ?A @ drop (nat ?k2) temp"
  have lA: "length ?A = nat (mid + 1 - i)" and lB: "length ?B = nat (right + 1 - j)"
    using assms by (simp_all add: length_slice)
  have n2: "nat ?k2 = nat k + length ?A"
    using assms lA by (simp add: nat_add_distrib)
  have n3: "nat ?k3 = nat k + length ?A + nat (right + 1 - j)"
    using assms lA by (simp add: nat_add_distrib)
  have le: "nat k + length ?A \<le> length temp"
    using assms n2 by linarith
  have 1: "merge_loop val arr temp mid right i j k = Some (temp, i, j, k)"
    by (subst merge_loop.simps) (simp only: assms(1) if_False)
  have 2: "copy_rest arr temp mid i k = Some (?T, ?k2)"
    using assms by (intro copy_rest_spec) auto
  have lT: "length ?T = length temp"
    unfolding n2 using le by (rule window_length)
  have 3: "copy_rest arr ?T right j ?k2 =
      Some (take (nat ?k2) ?T @ ?B @ drop (nat ?k3) ?T, ?k3)"
    using assms lT by (intro copy_rest_spec) auto
  have t1: "take (nat ?k2) ?T = take (nat k) temp @ ?A"
    unfolding n2 using le by (rule window_take)
  have t2: "drop (nat ?k3) ?T = drop (nat ?k3) temp"
    unfolding n3 n2 using le by (rule window_drop)
  have "?A = [] \<or> ?B = []"
    using assms(1) by (auto simp: slice_Nil)
  then have m: "stable_merge val ?A ?B = ?A @ ?B"
    by (rule stable_merge_one_empty)
  show ?thesis
    unfolding fill_temp_def by (simp only: 1 2 3 t1 t2 m option.case prod.case append_assoc)
qed

lemma fill_temp_spec:
  "0 \<le> i \<Longrightarrow> i \<le> mid + 1 \<Longrightarrow> mid < int (length arr) \<Longrightarrow>
   0 \<le> j \<Longrightarrow> j \<le> right + 1 \<Longrightarrow> right < int (length arr) \<Longrightarrow>
   0 \<le> k \<Longrightarrow> k + (mid + 1 - i) + (right + 1 - j) \<le> int (length temp) \<Longrightarrow>
   fill_temp val arr temp mid right i j k =
     Some (take (nat k) temp @ stable_merge val (slice arr i mid) (slice arr j right)
             @ drop (nat (k + (mid + 1 - i) + (right + 1 - j))) temp,
           k + (mid + 1 - i) + (right + 1 - j))"
proof (induction val arr temp mid right i j k rule: merge_loop.induct)
  case (1 val arr temp mid right i j k)
  let ?k3 = "k + (mid + 1 - i) + (right + 1 - j)"
  show ?case
  proof (cases "i \<le> mid \<and> j \<le> right")
    case False
    then show ?thesis using "1.prems" by (rule fill_temp_exit)
  next
    case True
    then have im: "i \<le> mid" and jr: "j \<le> right" by simp_all
    have b: "in_bounds arr i" "in_bounds arr j" "in_bounds temp k"
      using True "1.prems" by (auto simp: in_bounds_def)
    have bb: "in_bounds arr i \<and> in_bounds arr j \<and> in_bounds temp k"
      using b by simp
    have nk: "nat k < length temp"
      using b(3) unfolding in_bounds_def by linarith
    have k1: "nat (k + 1) = Suc (nat k)"
      using "1.prems"(7) by (simp add: nat_add_distrib)
    have lt: "nat k < nat ?k3"
      using True "1.prems" by simp
    have sA: "slice arr i mid = arr ! nat i # slice arr (i + 1) mid"
      using b(1) im by (rule slice_Cons)
    have sB: "slice arr j right = arr ! nat j # slice arr (j + 1) right"
      using b(2) jr by (rule slice_Cons)
    show ?thesis
    proof (cases "double_le val (arr ! nat i) (arr ! nat j)")
      case le: True
      let ?t = "temp[nat k := arr ! nat i]"
      have e: "k + 1 + (mid + 1 - (i + 1)) + (right + 1 - j) = ?k3" by simp
      have step: "fill_temp val arr temp mid right i j k = fill_temp val arr ?t mid right (i + 1) j (k + 1)"
        unfolding fill_temp_def by (subst merge_loop.simps) (simp only: im jr b le if_True simp_thms)
      have IH: "fill_temp val arr ?t mid right (i + 1) j (k + 1) =
         Some (take (nat (k + 1)) ?t @ stable_merge val (slice arr (i + 1) mid) (slice arr j right)
             @ drop (nat ?k3) ?t, ?k3)"
        using "1.IH"(1) [OF True bb le] "1.prems" True unfolding e by simp
      have t1: "take (nat (k + 1)) ?t = take (nat k) temp @ [arr ! nat i]"
        unfolding k1 using nk by (rule take_Suc_update)
      have t2: "drop (nat ?k3) ?t = drop (nat ?k3) temp"
        using lt by (rule drop_update_cancel)
      have sm: "stable_merge val (slice arr i mid) (slice arr j right)
          = arr ! nat i # stable_merge val (slice arr (i + 1) mid) (slice arr j right)"
        using le by (subst sA, subst (1 2) sB) simp
      show ?thesis
        by (simp only: step IH t1 t2 sm append_assoc append_Cons append_Nil)
    next
      case gt: False
      let ?t = "temp[nat k := arr ! nat j]"
      have e: "k + 1 + (mid + 1 - i) + (right + 1 - (j + 1)) = ?k3" by simp
      have step: "fill_temp val arr temp mid right i j k = fill_temp val arr ?t mid right i (j + 1) (k + 1)"
        unfolding fill_temp_def by (subst merge_loop.simps) (simp only: im jr b gt if_True if_False simp_thms)
      have IH: "fill_temp val arr ?t mid right i (j + 1) (k + 1) =
         Some (take (nat (k + 1)) ?t @ stable_merge val (slice arr i mid) (slice arr (j + 1) right)
             @ drop (nat ?k3) ?t, ?k3)"
        using "1.IH"(2) [OF True bb gt] "1.prems" True unfolding e by simp
      have t1: "take (nat (k + 1)) ?t = take (nat k) temp @ [arr ! nat j]"
        unfolding k1 using nk by (rule take_Suc_update)
      have t2: "drop (nat ?k3) ?t = drop (nat ?k3) temp"
        using lt by (rule drop_update_cancel)
      have sm: "stable_merge val (slice arr i mid) (slice arr j right)
          = arr ! nat j # stable_merge val (slice arr i mid) (slice arr (j + 1) right)"
        using gt by (subst (1 2) sA, subst sB) simp
      show ?thesis
        by (simp only: step IH t1 t2 sm append_assoc append_Cons append_Nil)
    qed
  qed
qed

lemma merge_fill_temp:
  "merge val arr temp left mid right =
     (case fill_temp val arr temp mid right left (mid + 1) left of
        None \<Rightarrow> None
      | Some (temp3, k3) \<Rightarrow>
         (case copy_back arr temp3 right left of
            None \<Rightarrow> None
          | Some arr' \<Rightarrow> Some (arr', temp3)))"
  unfolding merge_def fill_temp_def by (simp split: option.splits)

lemma merge_append:
  assumes P: "length P = nat left" "0 \<le> left"
    and A: "length A = nat (mid + 1 - left)" "left \<le> mid + 1"
    and B: "length B = nat (right - mid)" "mid \<le> right"
    and T: "right < int (length temp)"
  shows "merge val (P @ A @ B @ S) temp left mid right =
     Some (P @ stable_merge val A B @ S,
           take (nat left) temp @ stable_merge val A B @ drop (nat (right + 1)) temp)"
proof -
  let ?arr = "P @ A @ B @ S" and ?M = "stable_merge val A B"
  let ?T = "take (nat left) temp @ ?M @ drop (nat (right + 1)) temp"
  have lM: "length ?M = nat (right + 1 - left)"
    using assms by (simp add: length_stable_merge nat_add_distrib [symmetric])
  have sA: "slice ?arr left mid = A"
    using P A by (simp add: slice_window)
  have "slice ((P @ A) @ B @ S) (mid + 1) right = B"
    using assms by (intro slice_window) auto
  then have sB: "slice ?arr (mid + 1) right = B" by simp
  have len: "right < int (length ?arr)" "mid < int (length ?arr)"
    using assms by auto
  have e: "left + (mid + 1 - left) + (right + 1 - (mid + 1)) = right + 1" by simp
  have 1: "fill_temp val ?arr temp mid right left (mid + 1) left = Some (?T, right + 1)"
    using fill_temp_spec [of left mid ?arr "mid + 1" right left temp val] assms len
    unfolding sA sB e by simp
  have lT: "length ?T = length temp"
    using assms lM by simp
  have sT: "slice ?T left right = ?M"
    using P A B T lM by (intro slice_window) auto
  have tk: "take (nat left) ?arr = P"
    using P by simp
  have "drop (nat (right + 1)) (P @ (A @ B) @ S) = S"
    using assms by (intro drop_window [of _ left]) auto
  then have dr: "drop (nat (right + 1)) ?arr = S" by simp
  have 2: "copy_back ?arr ?T right left = Some (P @ ?M @ S)"
    using copy_back_spec [of left right ?arr ?T] assms len lT unfolding sT tk dr by simp
  show ?thesis
    unfolding merge_fill_temp by (simp only: 1 2 option.case prod.case)
qed


subsection \<open>The recursive sorters\<close>

lemma mergesort_serial_frames:
  "arr = P @ X @ S \<Longrightarrow> temp = Pt @ Xt @ St \<Longrightarrow> length P = nat left \<Longrightarrow> length Pt = nat left \<Longrightarrow>
   0 \<le> left \<Longrightarrow> left \<le> right + 1 \<Longrightarrow>
   length X = nat (right + 1 - left) \<Longrightarrow> length Xt = nat (right + 1 - left) \<Longrightarrow>
   mergesort_serial val arr temp left right
     = Some (P @ list_mergesort val X @ S, Pt @ (if left < right then list_mergesort val X else Xt) @ St)"
proof (induction val arr temp left right arbitrary: P X S Pt Xt St rule: mergesort_serial.induct)
  case (1 val arr temp left right)
  show ?case
  proof (cases "left < right")
    case False
    with "1.prems" have "length X \<le> 1" by simp
    then have "list_mergesort val X = X" by (rule list_mergesort_short)
    with False "1.prems" show ?thesis by (simp add: mergesort_serial.simps)
  next
    case True
    define mid where "mid = left + (right - left) div 2"
    have m: "left \<le> mid" "mid < right"
      using True unfolding mid_def by simp_all
    define A B where "A = take (nat (mid + 1 - left)) X" and "B = drop (nat (mid + 1 - left)) X"
    define At Bt where "At = take (nat (mid + 1 - left)) Xt" and "Bt = drop (nat (mid + 1 - left)) Xt"
    have X: "X = A @ B" "Xt = At @ Bt" unfolding A_def B_def At_def Bt_def by simp_all
    have lA: "length A = nat (mid + 1 - left)" "length At = nat (mid + 1 - left)"
      unfolding A_def At_def using "1.prems" m by simp_all
    have lB: "length B = nat (right - mid)" "length Bt = nat (right - mid)"
      unfolding B_def Bt_def using "1.prems" m by simp_all
    define At' where "At' = (if left < mid then list_mergesort val A else At)"
    define Bt' where "Bt' = (if mid + 1 < right then list_mergesort val B else Bt)"
    have lt: "length At' = nat (mid + 1 - left)" "length Bt' = nat (right - mid)"
      unfolding At'_def Bt'_def using lA lB by (simp_all add: length_list_mergesort)
    have arr: "arr = P @ A @ B @ S" "temp = Pt @ At @ Bt @ St"
      using "1.prems"(1,2) X by simp_all
    have 1: "mergesort_serial val arr temp left mid
        = Some (P @ list_mergesort val A @ B @ S, Pt @ At' @ Bt @ St)"
      unfolding At'_def using m
      by (intro "1.IH"(1) [OF True, folded mid_def, OF arr "1.prems"(3,4,5) _ lA]) simp
    have n1: "nat left + nat (mid + 1 - left) = nat (mid + 1)"
      using m "1.prems"(5) by linarith
    have n2: "nat (right + 1 - (mid + 1)) = nat (right - mid)"
      by simp
    have p: "length (P @ list_mergesort val A) = nat (mid + 1)" "length (Pt @ At') = nat (mid + 1)"
      using "1.prems"(3,4) lA lt n1 by (simp_all add: length_list_mergesort)
    have q: "length B = nat (right + 1 - (mid + 1))" "length Bt = nat (right + 1 - (mid + 1))"
      unfolding n2 by (rule lB)+
    have g: "0 \<le> mid + 1" "mid + 1 \<le> right + 1"
      using m "1.prems"(5) by simp_all
    have "mergesort_serial val (P @ list_mergesort val A @ B @ S) (Pt @ At' @ Bt @ St) (mid + 1) right
        = Some ((P @ list_mergesort val A) @ list_mergesort val B @ S, (Pt @ At') @ Bt' @ St)"
      unfolding Bt'_def
      by (rule "1.IH"(2) [OF True, folded mid_def, OF 1 refl _ _ p g q]) simp_all
    then have 2: "mergesort_serial val (P @ list_mergesort val A @ B @ S) (Pt @ At' @ Bt @ St) (mid + 1) right
        = Some (P @ list_mergesort val A @ list_mergesort val B @ S, Pt @ (At' @ Bt') @ St)"
      by simp
    let ?M = "stable_merge val (list_mergesort val A) (list_mergesort val B)"
    let ?t2 = "Pt @ (At' @ Bt') @ St"
    have 3: "merge val (P @ list_mergesort val A @ list_mergesort val B @ S) ?t2 left mid right =
       Some (P @ ?M @ S, take (nat left) ?t2 @ ?M @ drop (nat (right + 1)) ?t2)"
      using "1.prems" lA lB lt m by (intro merge_append) (auto simp: length_list_mergesort)
    have tk: "take (nat left) ?t2 = Pt"
      using "1.prems" by simp
    have dr: "drop (nat (right + 1)) ?t2 = St"
      using "1.prems" lt m by (intro drop_window [of _ left]) auto
    have r: "mergesort_serial val arr temp left right = Some (P @ ?M @ S, Pt @ ?M @ St)"
      by (subst mergesort_serial.simps)
        (simp only: True if_True mid_def [symmetric] 1 2 3 tk dr option.case prod.case)
    have "length X - 1 = nat (right - left)"
      using "1.prems"(7) True by simp
    then have "(length X - 1) div 2 + 1 = nat (mid + 1 - left)"
      unfolding mid_def using True by (simp add: nat_div_distrib nat_add_distrib)
    moreover have "\<not> length X \<le> 1"
      using "1.prems"(7) True by linarith
    then have "list_mergesort val X
        = stable_merge val (list_mergesort val (take ((length X - 1) div 2 + 1) X))
            (list_mergesort val (drop ((length X - 1) div 2 + 1) X))"
      by (subst list_mergesort.simps) (simp only: if_False)
    ultimately have "list_mergesort val X = ?M"
      unfolding A_def B_def by simp
    with r show ?thesis
      using True by simp
  qed
qed

lemma mergesort_serial_range:
  assumes "0 \<le> left" "left \<le> right + 1" "right < int (length arr)" "right < int (length temp)"
  shows "mergesort_serial val arr temp left right
      = Some (take (nat left) arr @ list_mergesort val (slice arr left right) @ drop (nat (right + 1)) arr,
              take (nat left) temp
                @ (if left < right then list_mergesort val (slice arr left right) else slice temp left right)
                @ drop (nat (right + 1)) temp)"
proof -
  have l: "length (take (nat left) arr) = nat left" "length (take (nat left) temp) = nat left"
    "length (slice arr left right) = nat (right + 1 - left)"
    "length (slice temp left right) = nat (right + 1 - left)"
    using assms by (simp_all add: length_slice)
  show ?thesis
    by (rule mergesort_serial_frames [OF array_split array_split l(1,2) assms(1,2) l(3,4)])
      (rule assms)+
qed

lemma serial_tasks_commute:
  assumes "0 \<le> left" "left \<le> mid + 1" "mid \<le> right"
    "right < int (length arr)" "right < int (length temp)"
  shows "(case mergesort_serial val arr temp left mid of
            None \<Rightarrow> None
          | Some (arr1, temp1) \<Rightarrow> mergesort_serial val arr1 temp1 (mid + 1) right)
       = (case mergesort_serial val arr temp (mid + 1) right of
            None \<Rightarrow> None
          | Some (arr1, temp1) \<Rightarrow> mergesort_serial val arr1 temp1 left mid)"
proof -
  let ?P = "take (nat left) arr" and ?A = "slice arr left mid"
  let ?B = "slice arr (mid + 1) right" and ?S = "drop (nat (right + 1)) arr"
  let ?Pt = "take (nat left) temp" and ?At = "slice temp left mid"
  let ?Bt = "slice temp (mid + 1) right" and ?St = "drop (nat (right + 1)) temp"
  let ?At' = "if left < mid then list_mergesort val ?A else ?At"
  let ?Bt' = "if mid + 1 < right then list_mergesort val ?B else ?Bt"
  have lr: "left \<le> right + 1" using assms by simp
  have arr: "arr = ?P @ ?A @ ?B @ ?S"
    using array_split [OF assms(1) lr, of arr] slice_append [OF assms(1-3), of arr] by simp
  have temp: "temp = ?Pt @ ?At @ ?Bt @ ?St"
    using array_split [OF assms(1) lr, of temp] slice_append [OF assms(1-3), of temp] by simp
  have l: "length ?P = nat left" "length ?Pt = nat left"
    "length ?A = nat (mid + 1 - left)" "length ?At = nat (mid + 1 - left)"
    "length ?B = nat (right - mid)" "length ?Bt = nat (right - mid)"
    "length ?At' = nat (mid + 1 - left)" "length ?Bt' = nat (right - mid)"
    using assms by (simp_all add: length_slice length_list_mergesort)
  have a1: "mergesort_serial val (?P @ ?A @ ?B @ ?S) (?Pt @ ?At @ ?Bt @ ?St) left mid
      = Some (?P @ list_mergesort val ?A @ ?B @ ?S, ?Pt @ ?At' @ ?Bt @ ?St)"
    by (rule mergesort_serial_frames [OF refl refl l(1,2) assms(1,2) l(3,4)])
  have n1: "nat left + nat (mid + 1 - left) = nat (mid + 1)"
    using assms by linarith
  have n2: "nat (right + 1 - (mid + 1)) = nat (right - mid)"
    by simp
  have g: "0 \<le> mid + 1" "mid + 1 \<le> right + 1"
    using assms by simp_all
  have p: "length (?P @ list_mergesort val ?A) = nat (mid + 1)" "length (?Pt @ ?At') = nat (mid + 1)"
    "length (?P @ ?A) = nat (mid + 1)" "length (?Pt @ ?At) = nat (mid + 1)"
    using l n1 by (simp_all add: length_list_mergesort)
  have q: "length ?B = nat (right + 1 - (mid + 1))" "length ?Bt = nat (right + 1 - (mid + 1))"
    "length (list_mergesort val ?B) = nat (right + 1 - (mid + 1))" "length ?Bt' = nat (right + 1 - (mid + 1))"
    unfolding n2 using l by (simp_all add: length_list_mergesort)
  have "mergesort_serial val ((?P @ list_mergesort val ?A) @ ?B @ ?S) ((?Pt @ ?At') @ ?Bt @ ?St) (mid + 1) right
      = Some ((?P @ list_mergesort val ?A) @ list_mergesort val ?B @ ?S, (?Pt @ ?At') @ ?Bt' @ ?St)"
    by (rule mergesort_serial_frames [OF refl refl p(1,2) g q(1,2)])
  then have a2: "mergesort_serial val (?P @ list_mergesort val ?A @ ?B @ ?S) (?Pt @ ?At' @ ?Bt @ ?St) (mid + 1) right
      = Some (?P @ list_mergesort val ?A @ list_mergesort val ?B @ ?S, ?Pt @ ?At' @ ?Bt' @ ?St)"
    by simp
  have "mergesort_serial val ((?P @ ?A) @ ?B @ ?S) ((?Pt @ ?At) @ ?Bt @ ?St) (mid + 1) right
      = Some ((?P @ ?A) @ list_mergesort val ?B @ ?S, (?Pt @ ?At) @ ?Bt' @ ?St)"
    by (rule mergesort_serial_frames [OF refl refl p(3,4) g q(1,2)])
  then have b1: "mergesort_serial val (?P @ ?A @ ?B @ ?S) (?Pt @ ?At @ ?Bt @ ?St) (mid + 1) right
      = Some (?P @ ?A @ list_mergesort val ?B @ ?S, ?Pt @ ?At @ ?Bt' @ ?St)"
    by simp
  have b2: "mergesort_serial val (?P @ ?A @ list_mergesort val ?B @ ?S) (?Pt @ ?At @ ?Bt' @ ?St) left mid
      = Some (?P @ list_mergesort val ?A @ list_mergesort val ?B @ ?S, ?Pt @ ?At' @ ?Bt' @ ?St)"
    by (rule mergesort_serial_frames [OF refl refl l(1,2) assms(1,2) l(3,4)])
  have "(case mergesort_serial val (?P @ ?A @ ?B @ ?S) (?Pt @ ?At @ ?Bt @ ?St) left mid of
            None \<Rightarrow> None
          | Some (arr1, temp1) \<Rightarrow> mergesort_serial val arr1 temp1 (mid + 1) right)
       = (case mergesort_serial val (?P @ ?A @ ?B @ ?S) (?Pt @ ?At @ ?Bt @ ?St) (mid + 1) right of
            None \<Rightarrow> None
          | Some (arr1, temp1) \<Rightarrow> mergesort_serial val arr1 temp1 left mid)"
    by (simp only: a1 a2 b1 b2 option.case prod.case)
  then show ?thesis
    using arr temp by simp
qed

lemma mergesort_parallel_run:
  "mergesort_parallel val arr temp left right depth =
     (case mergesort_serial val arr temp left right of
        None \<Rightarrow> None
      | Some (arr', temp') \<Rightarrow> Some (arr', temp', run_of left right depth))"
proof (induction val arr temp left right depth rule: mergesort_parallel.induct)
  case (1 val arr temp left right depth)
  show ?case
  proof (cases "depth \<le> 0 \<or> right - left \<le> 1000")
    case True
    then show ?thesis
      by (subst mergesort_parallel.simps, subst run_of.simps) simp
  next
    case False
    then have lr: "left < right" by simp
    let ?mid = "left + (right - left) div 2"
    have 1: "mergesort_parallel val arr temp left ?mid (depth - 1) =
        (case mergesort_serial val arr temp left ?mid of
           None \<Rightarrow> None
         | Some (arr', temp') \<Rightarrow> Some (arr', temp', run_of left ?mid (depth - 1)))"
      using False lr by (rule "1.IH"(1))
    have 2: "mergesort_parallel val arr1 temp1 (?mid + 1) right (depth - 1) =
        (case mergesort_serial val arr1 temp1 (?mid + 1) right of
           None \<Rightarrow> None
         | Some (arr', temp') \<Rightarrow> Some (arr', temp', run_of (?mid + 1) right (depth - 1)))"
      if "mergesort_serial val arr temp left ?mid = Some (arr1, temp1)" for arr1 temp1
      using "1.IH"(2) [OF False lr _ refl refl, of arr1 temp1 "run_of left ?mid (depth - 1)"] that 1
      by simp
    show ?thesis
      using False lr 2
      by (subst mergesort_parallel.simps, subst mergesort_serial.simps, subst run_of.simps)
         (simp add: 1 split: option.splits)
  qed
qed

lemma mergesort_parallel_arrays:
  "map_option arrays (mergesort_parallel val arr temp left right depth)
     = mergesort_serial val arr temp left right"
  by (simp add: mergesort_parallel_run split: option.splits)

lemma case_run:
  "(case (case m of None \<Rightarrow> None | Some (a, t) \<Rightarrow> Some (a, t, r)) of
      None \<Rightarrow> None
    | Some (a1, t1, r1) \<Rightarrow> f a1 t1)
   = (case m of None \<Rightarrow> None | Some (a1, t1) \<Rightarrow> f a1 t1)"
  by (simp split: option.splits prod.splits)

lemma tasks_commute:
  assumes "0 \<le> left" "left \<le> mid + 1" "mid \<le> right"
    "right < int (length arr)" "right < int (length temp)"
  shows "(case mergesort_parallel val arr temp left mid depth of
            None \<Rightarrow> None
          | Some (arr1, temp1, run1) \<Rightarrow>
              map_option arrays (mergesort_parallel val arr1 temp1 (mid + 1) right depth))
       = (case mergesort_parallel val arr temp (mid + 1) right depth of
            None \<Rightarrow> None
          | Some (arr1, temp1, run1) \<Rightarrow>
              map_option arrays (mergesort_parallel val arr1 temp1 left mid depth))"
  unfolding mergesort_parallel_arrays
  unfolding mergesort_parallel_run case_run
  by (rule serial_tasks_commute [OF assms])

lemma parallel_sort_list_mergesort:
  assumes "size' = int (length arr)" "length temp = length arr"
  shows "parallel_sort val (Some temp) max_threads arr size' = Some (list_mergesort val arr)"
proof -
  have "slice arr 0 (int (length arr) - 1) = arr"
    by (simp add: slice_def)
  then show ?thesis
    using mergesort_serial_range [of 0 "int (length arr) - 1" arr temp val] assms
    by (simp add: parallel_sort_def mergesort_parallel_run)
qed

lemma parallel_sort_sort_key:
  assumes "size' = int (length arr)" "length temp = length arr" "all_numbers val arr"
  shows "parallel_sort val (Some temp) max_threads arr size' = Some (sort_key (num val) arr)"
  using parallel_sort_list_mergesort [OF assms(1,2), of val max_threads]
    list_mergesort_sort_key [OF assms(3)] by simp

lemma parallel_sort_small:
  "parallel_sort val allocated max_threads [] 0 = Some []"
  "parallel_sort val allocated max_threads [x] 1 = Some [x]"
  by (auto simp: parallel_sort_def mergesort_parallel_run mergesort_serial.simps split: option.splits)

subsection \<open>The data-parallel loops\<close>

lemma run_iterations_accumulate:
  "\<forall>i\<in>set js. in_bounds arr i \<Longrightarrow>
   run_iterations js (\<lambda>i r. if in_bounds arr i then Some (f r (arr ! nat i)) else None) init
     = Some (fold (\<lambda>i r. f r (arr ! nat i)) js init)"
  by (induction js arbitrary: init) simp_all

lemma map_nth_upto: "map (\<lambda>i. arr ! nat i) [0..int (length arr) - 1] = arr"
  by (rule nth_equalityI) simp_all

lemma fold_upto_foldl:
  "fold (\<lambda>i r. f r (arr ! nat i)) [0..int (length arr) - 1] init = foldl f init arr"
proof -
  have "fold (\<lambda>i r. f r (arr ! nat i)) [0..int (length arr) - 1] init
      = fold (\<lambda>x r. f r x) (map (\<lambda>i. arr ! nat i) [0..int (length arr) - 1]) init"
    by (simp add: fold_map comp_def)
  then show ?thesis
    by (simp add: map_nth_upto foldl_conv_fold)
qed

lemma parallel_for_accumulate:
  assumes comm: "\<And>r a b. f (f r a) b = f (f r b) a"
    and sched: "valid_schedule sched (int (length arr))"
  shows "parallel_for sched (int (length arr))
           (\<lambda>i r. if in_bounds arr i then Some (f r (arr ! nat i)) else None) init
         = Some (foldl f init arr)"
proof -
  let ?js = "sched [0..int (length arr) - 1]"
  have m: "mset ?js = mset [0..int (length arr) - 1]"
    using sched by (simp add: valid_schedule_def)
  then have "set ?js = set [0..int (length arr) - 1]"
    by (rule mset_eq_setD)
  then have b: "\<forall>i\<in>set ?js. in_bounds arr i"
    by (auto simp: in_bounds_def)
  have "fold (\<lambda>i r. f r (arr ! nat i)) ?js = fold (\<lambda>i r. f r (arr ! nat i)) [0..int (length arr) - 1]"
    using m by (rule fold_multiset_equiv [rotated]) (auto simp: comm fun_eq_iff)
  then show ?thesis
    unfolding parallel_for_def by (simp add: run_iterations_accumulate [OF b] fold_upto_foldl)
qed

lemma parallel_reduce_fold:
  assumes "size' = int (length arr)" "valid_schedule sched size'"
  shows "parallel_reduce sched arr size' initial (operator_code oper)
     = Some (foldl (combine oper) initial arr)"
proof (cases oper)
  case Sum
  have "combine Sum = (+)" by (simp add: fun_eq_iff)
  with Sum show ?thesis
    using assms parallel_for_accumulate [of "(+)" sched arr initial]
    by (simp add: parallel_reduce_def)
next
  case Product
  have "combine Product = (*)" by (simp add: fun_eq_iff)
  with Product show ?thesis
    using assms parallel_for_accumulate [of "(*)" sched arr initial]
    by (simp add: parallel_reduce_def)
next
  case Maximum
  have "combine Maximum = (\<lambda>r x. if x > r then x else r)" by (auto simp: fun_eq_iff)
  with Maximum show ?thesis
    using assms parallel_for_accumulate [of "\<lambda>r x. if x > r then x else r" sched arr initial]
    by (simp add: parallel_reduce_def)
next
  case Minimum
  have "combine Minimum = (\<lambda>r x. if x < r then x else r)" by (auto simp: fun_eq_iff)
  with Minimum show ?thesis
    using assms parallel_for_accumulate [of "\<lambda>r x. if x < r then x else r" sched arr initial]
    by (simp add: parallel_reduce_def)
qed

lemma run_iterations_update:
  "\<forall>i\<in>set js. in_bounds inp i \<and> in_bounds out i \<Longrightarrow>
   run_iterations js
     (\<lambda>i out. if in_bounds inp i \<and> in_bounds out i
        then Some (out[nat i := f (inp ! nat i)]) else None) out
     = Some (fold (\<lambda>i out. out[nat i := f (inp ! nat i)]) js out)"
  by (induction js arbitrary: out) (simp_all add: in_bounds_def)

lemma length_fold_update:
  "length (fold (\<lambda>i out. out[nat i := f (inp ! nat i)]) js out) = length out"
  by (induction js arbitrary: out) simp_all

lemma nth_fold_update:
  "\<forall>i\<in>set js. 0 \<le> i \<Longrightarrow> n < length out \<Longrightarrow>
   fold (\<lambda>i out. out[nat i := f (inp ! nat i)]) js out ! n
     = (if int n \<in> set js then f (inp ! n) else out ! n)"
proof (induction js arbitrary: out)
  case Nil
  then show ?case by simp
next
  case (Cons j js)
  then have "0 \<le> j" by simp
  then have "nat j = n \<longleftrightarrow> j = int n" by auto
  with Cons show ?case
    by (auto simp: nth_list_update)
qed

lemma parallel_transform_map:
  assumes "size' = int (length inp)" "length out = length inp" "valid_schedule sched size'"
  shows "parallel_transform sched inp out size' func = Some (map func inp)"
proof -
  let ?js = "sched [0..int (length inp) - 1]"
  let ?r = "fold (\<lambda>i out. out[nat i := func (inp ! nat i)]) ?js out"
  have "mset ?js = mset [0..int (length inp) - 1]"
    using assms by (simp add: valid_schedule_def)
  then have s: "set ?js = {0..int (length inp) - 1}"
    using mset_eq_setD by fastforce
  then have b: "\<forall>i\<in>set ?js. in_bounds inp i \<and> in_bounds out i"
    using assms(2) by (auto simp: in_bounds_def)
  have "?r = map func inp"
  proof (rule nth_equalityI)
    show "length ?r = length (map func inp)"
      using assms(2) by (simp add: length_fold_update)
    fix n assume "n < length ?r"
    then have n: "n < length out" by (simp add: length_fold_update)
    have "?r ! n = (if int n \<in> set ?js then func (inp ! n) else out ! n)"
      using s n by (intro nth_fold_update) auto
    then show "?r ! n = map func inp ! n"
      using s n assms(2) by simp
  qed
  then show ?thesis
    using assms(1) run_iterations_update [OF b, of func]
    by (simp add: parallel_transform_def parallel_for_def)
qed

section \<open>The properties of the engine\<close>

text \<open>
  C1, as stated, promises a sorted array for every array. The comparison
  \<^verbatim>\<open>arr[i] <= arr[j]\<close> is false as soon as one of the two is a NaN, and the merge
  then takes the right-hand cell: \<open>[1, NaN, 0, 2]\<close> ends as \<open>[0, 2, NaN, 1]\<close>, with
  \<open>2\<close> before \<open>1\<close>.
\<close>

theorem parallel_sort_nan_counterexample:
  "parallel_sort id (Some [None, None, None, None]) 4 [Some 1, None, Some 0, Some (2::real)] 4
     = Some [Some 0, Some 2, None, Some 1]
   \<and> \<not> non_decreasing id [Some 0, Some 2, None, Some (1::real)]
   \<and> \<not> double_le id (Some (2::real)) (Some 1)"
  by (simp add: parallel_sort_def mergesort_parallel.simps mergesort_serial.simps merge_def
      merge_loop.simps copy_rest.simps copy_back.simps in_bounds_def double_le_def
      non_decreasing_def)

text \<open>
  C1, amended. When the buffer has been allocated and \<open>size\<close> is the length of the
  array, \<^verbatim>\<open>parallel_sort\<close> returns without leaving either array, for every array, and
  the array it leaves has the same cells as the input (as a multiset) and the same
  length; when no cell of the input is a NaN, it is sorted in non-decreasing order. On
  the empty array and on an array of one cell the call returns the array as it was,
  whatever the allocation returned.
\<close>

theorem parallel_sort_sorted_permutation:
  assumes "size' = int (length arr)" and "length temp = length arr"
  shows "\<exists>res. parallel_sort val (Some temp) max_threads arr size' = Some res
           \<and> mset res = mset arr \<and> length res = length arr
           \<and> (all_numbers val arr \<longrightarrow> non_decreasing val res)
           \<and> parallel_sort val allocated max_threads [] 0 = Some []
           \<and> parallel_sort val allocated max_threads [x] 1 = Some [x]"
proof -
  have "non_decreasing val (list_mergesort val arr)" if "all_numbers val arr"
    using that
    by (simp add: list_mergesort_sort_key non_decreasing_sorted all_numbers_sort_key)
  then show ?thesis
    using parallel_sort_list_mergesort [OF assms, of val max_threads]
      parallel_sort_small [of val allocated max_threads]
    by (simp add: mset_list_mergesort length_list_mergesort)
qed

text \<open>The scenario \<open>sort([5,3,1,4,2])\<close>, an empty array and an array of one cell.\<close>

theorem parallel_sort_sorted_permutation_witness:
  "parallel_sort Some (Some [0, 0, 0, 0, 0]) 4 [5, 3, 1, 4, 2 :: real] 5 = Some [1, 2, 3, 4, 5]
   \<and> all_numbers Some [5, 3, 1, 4, 2 :: real]
   \<and> (\<exists>res. parallel_sort Some (Some [0, 0, 0, 0, 0]) 4 [5, 3, 1, 4, 2 :: real] 5 = Some res
          \<and> mset res = mset [5, 3, 1, 4, 2] \<and> length res = length [5, 3, 1, 4, 2 :: real]
          \<and> non_decreasing Some res)
   \<and> parallel_sort Some None 4 [] 0 = Some ([] :: real list)
   \<and> parallel_sort Some None 4 [7 :: real] 1 = Some [7]"
proof -
  have n: "all_numbers Some [5, 3, 1, 4, 2 :: real]"
    by simp
  have h: "(5::int) = int (length [5, 3, 1, 4, 2 :: real])"
    "length [0, 0, 0, 0, 0 :: real] = length [5, 3, 1, 4, 2 :: real]"
    by simp_all
  have v: "parallel_sort Some (Some [0, 0, 0, 0, 0]) 4 [5, 3, 1, 4, 2 :: real] 5
      = Some [1, 2, 3, 4, 5]"
    using parallel_sort_sort_key [OF h n, of 4] by (simp add: num_def)
  from parallel_sort_sorted_permutation [OF h, of Some 4 None 7]
  obtain res where r: "parallel_sort Some (Some [0, 0, 0, 0, 0]) 4 [5, 3, 1, 4, 2 :: real] 5
        = Some res"
      "mset res = mset [5, 3, 1, 4, 2]" "length res = length [5, 3, 1, 4, 2 :: real]"
      "all_numbers Some [5, 3, 1, 4, 2 :: real] \<longrightarrow> non_decreasing Some res"
      "parallel_sort Some None 4 [] 0 = Some ([] :: real list)"
      "parallel_sort Some None 4 [7 :: real] 1 = Some [7]"
    by blast
  from r(4) n have "non_decreasing Some res" by blast
  with v n r show ?thesis by blast
qed

text \<open>
  C2. For each of the four operators, whatever the order in which the iterations take
  effect, \<^verbatim>\<open>parallel_reduce\<close> on an array of \<open>size\<close> cells returns the left fold of
  the operator over the array, started at \<open>initial\<close>. On the array of length zero that
  is \<open>initial\<close>; on an array of one cell it is \<open>initial\<close> combined with the cell.
\<close>

theorem parallel_reduce_left_fold:
  assumes "size' = int (length arr)" and "valid_schedule sched size'"
  shows "parallel_reduce sched arr size' initial (operator_code oper)
           = Some (foldl (combine oper) initial arr)
     \<and> parallel_reduce (\<lambda>js. js) [] 0 initial (operator_code oper) = Some initial
     \<and> parallel_reduce (\<lambda>js. js) [x] 1 initial (operator_code oper) = Some (combine oper initial x)"
proof -
  have "valid_schedule (\<lambda>js. js) n" for n
    by (simp add: valid_schedule_def)
  then show ?thesis
    using parallel_reduce_fold [OF assms, of initial oper]
      parallel_reduce_fold [of 0 "[]" "\<lambda>js. js" initial oper]
      parallel_reduce_fold [of 1 "[x]" "\<lambda>js. js" initial oper]
    by simp
qed

text \<open>
  The scenarios \<open>reduce([1,2,3,4,5], 0, Sum) = 15\<close> and
  \<open>reduce([2,3,4], 1, Product) = 24\<close>, a maximum and a minimum, with the iterations
  taking effect in reverse order.
\<close>

theorem parallel_reduce_left_fold_witness:
  "valid_schedule rev 5
   \<and> parallel_reduce rev [1, 2, 3, 4, 5] 5 0 (operator_code Sum) = Some 15
   \<and> valid_schedule rev 3
   \<and> parallel_reduce rev [2, 3, 4] 3 1 (operator_code Product) = Some 24
   \<and> parallel_reduce rev [2, 7, 4] 3 3 (operator_code Maximum) = Some 7
   \<and> parallel_reduce rev [2, 7, 4] 3 3 (operator_code Minimum) = Some 2"
proof -
  have v: "valid_schedule rev n" for n
    by (simp add: valid_schedule_def)
  show ?thesis
    using v parallel_reduce_left_fold [of 5 "[1, 2, 3, 4, 5]" rev 0 Sum]
      parallel_reduce_left_fold [of 3 "[2, 3, 4]" rev 1 Product]
      parallel_reduce_left_fold [of 3 "[2, 7, 4]" rev 3 Maximum]
      parallel_reduce_left_fold [of 3 "[2, 7, 4]" rev 3 Minimum]
    by simp
qed

text \<open>
  C3. For an input and an output array of \<open>size\<close> cells each and any function,
  whatever the order in which the iterations take effect, \<^verbatim>\<open>parallel_transform\<close>
  returns, and the output array then holds \<open>func (inp ! i)\<close> in cell \<open>i\<close>, for
  every index \<open>i\<close> below the length.
\<close>

theorem parallel_transform_pointwise:
  assumes "size' = int (length inp)" and "length out = length inp"
    and "valid_schedule sched size'"
  shows "\<exists>out'. parallel_transform sched inp out size' func = Some out'
           \<and> length out' = length inp
           \<and> (\<forall>i < length inp. out' ! i = func (inp ! i))"
  using parallel_transform_map [OF assms, of func] by simp

text \<open>The scenario \<open>transform([1,4,9], sqrt) = [1,2,3]\<close>, iterations in reverse order.\<close>

theorem parallel_transform_pointwise_witness:
  "valid_schedule rev 3
   \<and> (\<exists>out'. parallel_transform rev [1, 4, 9] [0, 0, 0] 3 sqrt = Some out'
          \<and> length out' = length [1, 4, 9 :: real]
          \<and> out' ! 0 = 1 \<and> out' ! 1 = 2 \<and> out' ! 2 = 3)"
proof -
  have v: "valid_schedule rev 3"
    by (simp add: valid_schedule_def)
  from parallel_transform_pointwise [of 3 "[1, 4, 9]" "[0, 0, 0]" rev sqrt, OF _ _ v]
  obtain out' where o: "parallel_transform rev [1, 4, 9] [0, 0, 0] 3 sqrt = Some out'"
    "length out' = length [1, 4, 9 :: real]"
    "\<forall>i < length [1, 4, 9 :: real]. out' ! i = sqrt ([1, 4, 9] ! i)"
    by auto
  from o(3) [rule_format, of 0] o(3) [rule_format, of 1] o(3) [rule_format, of 2]
  have "out' ! 0 = 1" "out' ! 1 = 2" "out' ! 2 = 3"
    by simp_all
  with v o(1,2) show ?thesis by simp
qed

text \<open>
  C4, as stated, asks for a failure on an operator code outside \<open>{0, 1, 2, 3}\<close>. The
  function has no way to fail: on the code \<open>7\<close> it returns the value \<open>5\<close> it was
  given as \<open>initial\<close>.
\<close>

theorem parallel_reduce_no_error_counterexample:
  "parallel_reduce (\<lambda>js. js) [1, 2] 2 5 7 = Some 5"
  by (simp add: parallel_reduce_def)

text \<open>
  C4, amended. For every operator code outside \<open>{0, 1, 2, 3}\<close>, \<^verbatim>\<open>parallel_reduce\<close>
  reports nothing: it returns a value, for any array, size and schedule, and the value
  is the one a reduction of an empty array with a defined operator returns.
\<close>

theorem undefined_operator_returns_silently:
  assumes "op < 0 \<or> 3 < op"
  shows "\<exists>v. parallel_reduce sched arr size' initial op = Some v
           \<and> parallel_reduce (\<lambda>js. js) [] 0 initial (operator_code oper) = Some v"
proof -
  have "valid_schedule (\<lambda>js. js) 0"
    by (simp add: valid_schedule_def)
  then have "parallel_reduce (\<lambda>js. js) [] 0 initial (operator_code oper) = Some initial"
    using parallel_reduce_fold [of 0 "[]" "\<lambda>js. js" initial oper] by simp
  moreover have "parallel_reduce sched arr size' initial op = Some initial"
    using assms by (auto simp: parallel_reduce_def)
  ultimately show ?thesis by simp
qed

text \<open>The code \<open>4\<close>, with a size that even exceeds the array.\<close>

theorem undefined_operator_returns_silently_witness:
  "((4::int) < 0 \<or> (3::int) < 4)
   \<and> (\<exists>v. parallel_reduce rev [1, 2] 9 5 4 = Some v
          \<and> parallel_reduce (\<lambda>js. js) [] 0 5 (operator_code Product) = Some v)"
  using undefined_operator_returns_silently [of 4 rev "[1, 2]" 9 5 Product]
  by simp

text \<open>
  C5, as stated, asks that a caller can tell a failed allocation from a successful
  sort. \<^verbatim>\<open>parallel_sort\<close> returns nothing but the array: on the sorted array
  \<open>[1, 2, 3]\<close> the call whose allocation fails and the call whose allocation succeeds
  end in the same state.
\<close>

theorem parallel_sort_failure_undetectable_counterexample:
  "parallel_sort Some None 4 [1, 2, 3 :: real] 3
     = parallel_sort Some (Some [0, 0, 0]) 4 [1, 2, 3 :: real] 3"
proof -
  have "all_numbers Some [1, 2, 3 :: real]" by simp
  from parallel_sort_sort_key [of 3 "[1, 2, 3 :: real]" "[0, 0, 0]" Some 4, OF _ _ this]
  show ?thesis
    by (simp add: parallel_sort_def num_def)
qed

text \<open>
  C5, amended. When the allocation of the buffer fails, \<^verbatim>\<open>parallel_sort\<close> returns
  with the array exactly as it was; it gives the caller no indication of the failure.
\<close>

theorem parallel_sort_allocation_failure:
  "parallel_sort val None max_threads arr size' = Some arr"
  by (simp add: parallel_sort_def)

text \<open>
  C6, as stated, puts the boundary of the sequential fallback at a range of 1000 cells.
  The guard compares \<open>right - left\<close>, one less than the number of cells, with 1000: the
  task \<open>(0, 1000, 1)\<close> has a positive depth and a range of 1001 cells, and its call
  takes the fallback.
\<close>

theorem sequential_fallback_cutoff_counterexample:
  "map_option (snd \<circ> snd)
       (mergesort_parallel Some (rev (map real [0..<1001])) (replicate 1001 0) 0 1000 1)
     = Some (Sequential 0 1000 1)
   \<and> \<not> ((1::int) \<le> 0 \<or> range_length 0 1000 \<le> 1000)"
proof -
  have "mergesort_serial Some (rev (map real [0..<1001])) (replicate 1001 0) 0 1000 \<noteq> None"
    using mergesort_serial_range [of 0 1000 "rev (map real [0..<1001])" "replicate 1001 0" Some]
    by simp
  then show ?thesis
    by (auto simp: mergesort_parallel_run run_of.simps range_length_def)
qed

text \<open>
  C6, amended. For every task \<open>(left, right, depth)\<close> on a range inside both arrays the
  call returns, and the record of the call is that of the task. The call takes the
  sequential fallback, \<^verbatim>\<open>mergesort_serial\<close> on the range, exactly when \<open>depth \<le> 0\<close>
  or \<open>right - left \<le> 1000\<close>, that is when the range has at most 1001 cells. Otherwise
  it forks: it runs the calls for the tasks \<open>(left, mid, depth - 1)\<close> and
  \<open>(mid + 1, right, depth - 1)\<close> and merges the two halves in the state both have left.
  Depth 0 takes the fallback whatever the range. The range keeps its cells, and ends
  in non-decreasing order when none of them is a NaN, whatever its length.
\<close>

theorem mergesort_parallel_task_structure:
  assumes "0 \<le> left" and "left \<le> right + 1"
    and "right < int (length arr)" and "right < int (length temp)"
  shows "\<exists>arr' temp' run.
       mergesort_parallel val arr temp left right depth = Some (arr', temp', run)
     \<and> task_of run = (left, right, depth)
     \<and> (run = Sequential left right depth \<longleftrightarrow> depth \<le> 0 \<or> range_length left right \<le> 1001)
     \<and> (if depth \<le> 0 \<or> right - left \<le> 1000
         then run = Sequential left right depth
            \<and> mergesort_serial val arr temp left right = Some (arr', temp')
         else \<exists>arr1 temp1 run1 arr2 temp2 run2.
                mergesort_parallel val arr temp left (left + (right - left) div 2) (depth - 1)
                  = Some (arr1, temp1, run1)
              \<and> mergesort_parallel val arr1 temp1 (left + (right - left) div 2 + 1) right
                    (depth - 1)
                  = Some (arr2, temp2, run2)
              \<and> merge val arr2 temp2 left (left + (right - left) div 2) right = Some (arr', temp')
              \<and> run = Forked left right depth run1 run2
              \<and> task_of run1 = (left, left + (right - left) div 2, depth - 1)
              \<and> task_of run2 = (left + (right - left) div 2 + 1, right, depth - 1))
     \<and> mset (slice arr' left right) = mset (slice arr left right)
     \<and> (all_numbers val (slice arr left right) \<longrightarrow> non_decreasing val (slice arr' left right))
     \<and> (\<exists>arr0 temp0.
           mergesort_parallel val arr temp left right 0 = Some (arr0, temp0, Sequential left right 0))"
proof -
  let ?X = "slice arr left right"
  let ?arr' = "take (nat left) arr @ list_mergesort val ?X @ drop (nat (right + 1)) arr"
  let ?temp' = "take (nat left) temp
      @ (if left < right then list_mergesort val ?X else slice temp left right)
      @ drop (nat (right + 1)) temp"
  let ?mid = "left + (right - left) div 2"
  have ser: "mergesort_serial val arr temp left right = Some (?arr', ?temp')"
    using assms by (rule mergesort_serial_range)
  then have par: "mergesort_parallel val arr temp left right d
      = Some (?arr', ?temp', run_of left right d)" for d
    by (simp add: mergesort_parallel_run)
  have t: "task_of (run_of l r d) = (l, r, d)" for l r d
    by (subst run_of.simps) simp
  have "length (list_mergesort val ?X) = nat (right + 1 - left)"
    using assms by (simp add: length_list_mergesort length_slice)
  note sl = slice_result(1) [OF assms(1-3) this]
  have s1: "mset (slice ?arr' left right) = mset ?X"
    unfolding sl by (rule mset_list_mergesort)
  have s2: "non_decreasing val (slice ?arr' left right)" if "all_numbers val ?X"
    unfolding sl using that
    by (simp add: list_mergesort_sort_key non_decreasing_sorted all_numbers_sort_key)
  have d0: "run_of left right 0 = Sequential left right 0"
    by (subst run_of.simps) simp
  show ?thesis
  proof (cases "depth \<le> 0 \<or> right - left \<le> 1000")
    case True
    then have r: "run_of left right depth = Sequential left right depth"
      by (subst run_of.simps) simp
    from True have g: "depth \<le> 0 \<or> range_length left right \<le> 1001"
      by (auto simp: range_length_def)
    show ?thesis
      using True g par [of depth] par [of 0] ser s1 s2 r d0 by auto
  next
    case False
    then have lr: "left < right" by simp
    have r: "run_of left right depth
        = Forked left right depth (run_of left ?mid (depth - 1)) (run_of (?mid + 1) right (depth - 1))"
      using False lr by (subst run_of.simps) simp
    from False have g: "\<not> (depth \<le> 0 \<or> range_length left right \<le> 1001)"
      by (auto simp: range_length_def)
    from par [of depth] False lr
    obtain arr1 temp1 run1 arr2 temp2 run2 where
      1: "mergesort_parallel val arr temp left ?mid (depth - 1) = Some (arr1, temp1, run1)"
      and 2: "mergesort_parallel val arr1 temp1 (?mid + 1) right (depth - 1) = Some (arr2, temp2, run2)"
      and 3: "merge val arr2 temp2 left ?mid right = Some (?arr', ?temp')"
      and 4: "run_of left right depth = Forked left right depth run1 run2"
      by (subst (asm) mergesort_parallel.simps) (auto split: option.splits)
    from 1 2 have 5: "run1 = run_of left ?mid (depth - 1)" "run2 = run_of (?mid + 1) right (depth - 1)"
      by (auto simp: mergesort_parallel_run split: option.splits)
    have "\<exists>arr1 temp1 run1 arr2 temp2 run2.
                mergesort_parallel val arr temp left ?mid (depth - 1) = Some (arr1, temp1, run1)
              \<and> mergesort_parallel val arr1 temp1 (?mid + 1) right (depth - 1)
                  = Some (arr2, temp2, run2)
              \<and> merge val arr2 temp2 left ?mid right = Some (?arr', ?temp')
              \<and> run_of left right depth = Forked left right depth run1 run2
              \<and> task_of run1 = (left, ?mid, depth - 1)
              \<and> task_of run2 = (?mid + 1, right, depth - 1)"
      using 1 2 3 4 5 t by blast
    then show ?thesis
      using False g par [of depth] par [of 0] s1 s2 r d0 t by auto
  qed
qed

text \<open>
  Ranges of 1000, 1001 and 1002 cells with depth 4: the first two take the fallback,
  the third forks into the tasks \<open>(0, 500, 3)\<close> and \<open>(501, 1001, 3)\<close>, and all three end
  in non-decreasing order.
\<close>

theorem mergesort_parallel_task_structure_witness:
  "(\<exists>arr' temp'. mergesort_parallel Some (rev (map real [0..<1002])) (replicate 1002 0) 0 999 4
          = Some (arr', temp', Sequential 0 999 4)
        \<and> non_decreasing Some (slice arr' 0 999))
   \<and> (\<exists>arr' temp'. mergesort_parallel Some (rev (map real [0..<1002])) (replicate 1002 0) 0 1000 4
          = Some (arr', temp', Sequential 0 1000 4)
        \<and> non_decreasing Some (slice arr' 0 1000))
   \<and> (\<exists>arr' temp' run1 run2.
          mergesort_parallel Some (rev (map real [0..<1002])) (replicate 1002 0) 0 1001 4
          = Some (arr', temp', Forked 0 1001 4 run1 run2)
        \<and> task_of run1 = (0, 500, 3) \<and> task_of run2 = (501, 1001, 3)
        \<and> non_decreasing Some (slice arr' 0 1001))"
proof -
  let ?arr = "rev (map real [0..<1002])" and ?temp = "replicate 1002 (0::real)"
  have n: "all_numbers Some (slice ?arr 0 r)" for r
    by (simp add: all_numbers_set)
  have h: "(0::int) \<le> 0" "(0::int) \<le> 999 + 1" "(0::int) \<le> 1000 + 1" "(0::int) \<le> 1001 + 1"
    "999 < int (length ?arr)" "1000 < int (length ?arr)" "1001 < int (length ?arr)"
    "999 < int (length ?temp)" "1000 < int (length ?temp)" "1001 < int (length ?temp)"
    by simp_all
  have c: "(4::int) \<le> 0 \<or> (999::int) - 0 \<le> 1000" "(4::int) \<le> 0 \<or> (1000::int) - 0 \<le> 1000"
    "\<not> ((4::int) \<le> 0 \<or> (1001::int) - 0 \<le> 1000)"
    "(0::int) + (1001 - 0) div 2 = 500" "(500::int) + 1 = 501" "(4::int) - 1 = 3"
    by simp_all
  from mergesort_parallel_task_structure [OF h(1) h(2) h(5) h(8), of Some 4] n [of 999]
  have a: "\<exists>arr' temp'. mergesort_parallel Some ?arr ?temp 0 999 4
          = Some (arr', temp', Sequential 0 999 4)
        \<and> non_decreasing Some (slice arr' 0 999)"
    unfolding if_P [OF c(1)] by blast
  from mergesort_parallel_task_structure [OF h(1) h(3) h(6) h(9), of Some 4] n [of 1000]
  have b: "\<exists>arr' temp'. mergesort_parallel Some ?arr ?temp 0 1000 4
          = Some (arr', temp', Sequential 0 1000 4)
        \<and> non_decreasing Some (slice arr' 0 1000)"
    unfolding if_P [OF c(2)] by blast
  from mergesort_parallel_task_structure [OF h(1) h(4) h(7) h(10), of Some 4] n [of 1001]
  have "\<exists>arr' temp' run1 run2. mergesort_parallel Some ?arr ?temp 0 1001 4
          = Some (arr', temp', Forked 0 1001 4 run1 run2)
        \<and> task_of run1 = (0, 500, 3) \<and> task_of run2 = (501, 1001, 3)
        \<and> non_decreasing Some (slice arr' 0 1001)"
    unfolding if_not_P [OF c(3)] c(4,5,6) by blast
  with a b show ?thesis by blast
qed



text \<open>
  C8, as stated, holds for every array. With a NaN among the cells sorting twice is
  not sorting once: \<open>[2, NaN, 1]\<close> sorts to \<open>[1, NaN, 2]\<close>, which sorts back to
  \<open>[2, NaN, 1]\<close>.
\<close>

theorem parallel_sort_twice_nan_counterexample:
  "parallel_sort id (Some [None, None, None]) 4 [Some 2, None, Some (1::real)] 3
     = Some [Some 1, None, Some 2]
   \<and> parallel_sort id (Some [None, None, None]) 4 [Some 1, None, Some (2::real)] 3
     = Some [Some 2, None, Some 1]"
  by (simp add: parallel_sort_def mergesort_parallel.simps mergesort_serial.simps merge_def
      merge_loop.simps copy_rest.simps copy_back.simps in_bounds_def double_le_def)

text \<open>
  C8, amended. With the buffers allocated and \<open>size\<close> the length of the array: sorting
  an array that is already in non-decreasing order returns the same array, cell for
  cell; and for every array none of whose cells is a NaN, sorting the result of a sort
  again, with any buffer and any number of threads, returns that result.
\<close>

theorem parallel_sort_idempotent:
  assumes "size' = int (length arr)" and "length temp = length arr"
    and "length temp2 = length arr"
  shows "(non_decreasing val arr \<longrightarrow> parallel_sort val (Some temp) max_threads arr size' = Some arr)
     \<and> (all_numbers val arr \<longrightarrow>
          (\<exists>once. parallel_sort val (Some temp) max_threads arr size' = Some once
             \<and> parallel_sort val (Some temp2) max_threads2 once size' = Some once))"
proof -
  let ?once = "sort_key (num val) arr"
  have 1: "parallel_sort val (Some temp) max_threads arr size' = Some ?once"
    if "all_numbers val arr"
    using assms(1,2) that by (rule parallel_sort_sort_key)
  have 2: "parallel_sort val (Some temp2) max_threads2 ?once size' = Some ?once"
    if n: "all_numbers val arr"
  proof -
    have "parallel_sort val (Some temp2) max_threads2 ?once size' = Some (sort_key (num val) ?once)"
      using assms n by (intro parallel_sort_sort_key) (simp_all add: all_numbers_sort_key)
    then show ?thesis
      by (simp add: sort_key_id_if_sorted)
  qed
  have 3: "parallel_sort val (Some temp) max_threads arr size' = Some arr"
    if "non_decreasing val arr"
    using that 1 by (simp add: non_decreasing_sorted sort_key_id_if_sorted)
  show ?thesis
    using 1 2 3 by blast
qed

text \<open>A sorted array with a tie, which stays as it is, and an unsorted one sorted twice.\<close>

theorem parallel_sort_idempotent_witness:
  "non_decreasing (\<lambda>x. Some (fst x)) [(1::real, 0::nat), (1, 1), (2, 0)]
   \<and> parallel_sort (\<lambda>x. Some (fst x)) (Some [(0, 0), (0, 0), (0, 0)]) 4
         [(1::real, 0::nat), (1, 1), (2, 0)] 3
       = Some [(1, 0), (1, 1), (2, 0)]
   \<and> all_numbers Some [3, 1, 2 :: real]
   \<and> (\<exists>once. parallel_sort Some (Some [0, 0, 0]) 4 [3, 1, 2 :: real] 3 = Some once
          \<and> parallel_sort Some (Some [9, 9, 9]) 2 once 3 = Some once)"
proof -
  have a: "non_decreasing (\<lambda>x. Some (fst x)) [(1::real, 0::nat), (1, 1), (2, 0)]"
    by (simp add: non_decreasing_def double_le_def)
  have b: "all_numbers Some [3, 1, 2 :: real]"
    by simp
  have h: "(3::int) = int (length [(1::real, 0::nat), (1, 1), (2, 0)])"
    "length [(0::real, 0::nat), (0, 0), (0, 0)] = length [(1::real, 0::nat), (1, 1), (2, 0)]"
    "(3::int) = int (length [3, 1, 2 :: real])"
    "length [0, 0, 0 :: real] = length [3, 1, 2 :: real]"
    "length [9, 9, 9 :: real] = length [3, 1, 2 :: real]"
    by simp_all
  from parallel_sort_idempotent [OF h(1,2,2), of "\<lambda>x. Some (fst x)" 4 4] a
  have c: "parallel_sort (\<lambda>x. Some (fst x)) (Some [(0, 0), (0, 0), (0, 0)]) 4
         [(1::real, 0::nat), (1, 1), (2, 0)] 3 = Some [(1, 0), (1, 1), (2, 0)]"
    by blast
  from parallel_sort_idempotent [OF h(3,4,5), of Some 4 2] b
  have d: "\<exists>once. parallel_sort Some (Some [0, 0, 0]) 4 [3, 1, 2 :: real] 3 = Some once
          \<and> parallel_sort Some (Some [9, 9, 9]) 2 once 3 = Some once"
    by blast
  from a b c d show ?thesis by blast
qed

text \<open>
  C9. For every array, buffer, range and depth budget, positive or not,
  \<^verbatim>\<open>mergesort_parallel\<close> ends in the same state as \<^verbatim>\<open>mergesort_serial\<close> on the same
  range: the same array and the same buffer. For a range inside both arrays it does
  return.
\<close>

theorem mergesort_parallel_refines_serial:
  "map_option arrays (mergesort_parallel val arr temp left right depth)
     = mergesort_serial val arr temp left right
   \<and> (0 \<le> left \<and> left \<le> right + 1 \<and> right < int (length arr) \<and> right < int (length temp)
        \<longrightarrow> (\<exists>arr' temp' run.
              mergesort_parallel val arr temp left right depth = Some (arr', temp', run)))"
proof -
  have "\<exists>arr' temp' run. mergesort_parallel val arr temp left right depth = Some (arr', temp', run)"
    if "0 \<le> left" "left \<le> right + 1" "right < int (length arr)" "right < int (length temp)"
    using mergesort_serial_range [OF that, of val] by (simp add: mergesort_parallel_run)
  then show ?thesis
    using mergesort_parallel_arrays [of val arr temp left right depth] by blast
qed

text \<open>Depth \<open>-1\<close> and depth \<open>8\<close> on the same array.\<close>

theorem mergesort_parallel_refines_serial_witness:
  "map_option arrays (mergesort_parallel Some [3, 1, 2 :: real] [0, 0, 0] 0 2 (- 1))
     = mergesort_serial Some [3, 1, 2 :: real] [0, 0, 0] 0 2
   \<and> (\<exists>arr' temp' run.
         mergesort_parallel Some [3, 1, 2 :: real] [0, 0, 0] 0 2 (- 1) = Some (arr', temp', run))
   \<and> map_option arrays (mergesort_parallel Some [3, 1, 2 :: real] [0, 0, 0] 0 2 8)
     = mergesort_serial Some [3, 1, 2 :: real] [0, 0, 0] 0 2"
proof -
  have h: "(0::int) \<le> 0 \<and> (0::int) \<le> 2 + 1 \<and> 2 < int (length [3, 1, 2 :: real])
      \<and> 2 < int (length [0, 0, 0 :: real])"
    by simp
  note neg = mergesort_parallel_refines_serial [of Some "[3, 1, 2 :: real]" "[0, 0, 0]" 0 2 "- 1"]
  note pos = mergesort_parallel_refines_serial [of Some "[3, 1, 2 :: real]" "[0, 0, 0]" 0 2 8]
  from neg [THEN conjunct1] neg [THEN conjunct2, THEN mp, OF h] pos [THEN conjunct1]
  show ?thesis by (intro conjI)
qed

text \<open>
  C10. For every operator code outside \<open>{0, 1, 2, 3}\<close>, \<^verbatim>\<open>parallel_reduce\<close> returns
  \<open>initial\<close> as it was given, for any array, size and schedule. No loop runs; the
  array is an argument the function only reads.
\<close>

theorem parallel_reduce_undefined_operator:
  assumes "op \<notin> {0, 1, 2, 3}"
  shows "parallel_reduce sched arr size' initial op = Some initial"
  using assms by (simp add: parallel_reduce_def)

text \<open>The codes \<open>7\<close> and \<open>-1\<close>.\<close>

theorem parallel_reduce_undefined_operator_witness:
  "(7::int) \<notin> {0, 1, 2, 3} \<and> parallel_reduce rev [1, 2, 3] 3 5 7 = Some 5
   \<and> (- 1 :: int) \<notin> {0, 1, 2, 3} \<and> parallel_reduce rev [1, 2, 3] 3 5 (- 1) = Some 5"
  using parallel_reduce_undefined_operator [of 7 rev "[1, 2, 3]" 3 5]
    parallel_reduce_undefined_operator [of "- 1" rev "[1, 2, 3]" 3 5]
  by simp

end
